theory Spec2Isabelle
  imports Main "HOL-Library.Monad_Syntax" "HOL-Library.AList" "HOL-Library.Product_Lexorder" "HOL-Library.Multiset"
begin

section \<open>Data model of the simulated warehouse\<close>

text \<open>
  The program is \<^verbatim>\<open>src/code_simulation.py\<close>. Python integers are unbounded, so
  they are \<^typ>\<open>int\<close>. A Python exception (IndexError on a list, KeyError on a
  dictionary, ValueError of \<^verbatim>\<open>random.randint\<close> on an empty range) is the result
  \<open>None\<close> of an option-valued function; a function that cannot raise is total.
  Objects mutated in place are passed and returned explicitly: the warehouse holds
  the list of agents, and the acting agent (\<^verbatim>\<open>self\<close>) is named by its index in
  that list.
\<close>

record box =
  box_id :: int
  box_x :: int
  box_y :: int
  in_stack :: bool
  stack_size :: int

datatype agent_state = SEARCHING | PICKING_UP | DELIVERING

datatype cell_type = Empty | Wall | Box | Robot | Unknown

datatype message_type = BOX_DISCOVERED | TARGET_CLAIMED | TARGET_RELEASED | BOX_PICKED

record message =
  msg_type :: message_type
  position :: "int \<times> int"
  from_agent :: int

record agent =
  agent_id :: int
  agent_x :: int
  agent_y :: int
  carrying_box :: bool
  carried_box_id :: "int option"
  movements :: int
  state :: agent_state
  target :: "(int \<times> int) option"
  path :: "(int \<times> int) list"
  known_unassigned_boxes :: "(int \<times> int) list"
  sensor_range :: int
  communication_range :: int
  messages :: "message list"
  claimed_targets :: "(int \<times> int) \<rightharpoonup> int"

text \<open>
  \<open>box_locations\<close> is a Python dictionary that the program iterates over, so it is
  an association list in insertion order (\<open>AList.update\<close> keeps the place of an
  existing key and appends a new one, \<open>AList.delete\<close> removes the key, as
  \<^verbatim>\<open>d[k] = v\<close> and \<^verbatim>\<open>del d[k]\<close> do). The dictionaries that are only read by
  key are maps. The timing fields \<^verbatim>\<open>start_time\<close> and \<^verbatim>\<open>end_time\<close> are
  wall-clock floats used for reporting only and are left out.
\<close>

record warehouse =
  width :: int
  height :: int
  num_boxes :: int
  num_agents :: int
  grid :: "int list list"
  agents :: "agent list"
  boxes :: "int \<rightharpoonup> box"
  box_locations :: "((int \<times> int) \<times> int list) list"
  processed_boxes :: "int set"
  total_movements :: int
  steps :: int
  agent_deliveries :: "int \<rightharpoonup> int"

subsection \<open>Python list indexing\<close>

text \<open>
  \<^verbatim>\<open>xs[i]\<close>: an index in \<open>[0, len)\<close> is itself, one in \<open>[-len, 0)\<close> counts from the
  end, any other raises IndexError.
\<close>

definition py_index :: "nat \<Rightarrow> int \<Rightarrow> nat option" where
  "py_index n i =
     (if 0 \<le> i \<and> i < int n then Some (nat i)
      else if - int n \<le> i \<and> i < 0 then Some (nat (i + int n))
      else None)"

definition grid_get :: "int list list \<Rightarrow> int \<Rightarrow> int \<Rightarrow> int option" where
  "grid_get g px py =
     do {
       i \<leftarrow> py_index (length g) px;
       j \<leftarrow> py_index (length (g ! i)) py;
       Some (g ! i ! j)
     }"

definition grid_set :: "int list list \<Rightarrow> int \<Rightarrow> int \<Rightarrow> int \<Rightarrow> int list list option" where
  "grid_set g px py v =
     do {
       i \<leftarrow> py_index (length g) px;
       j \<leftarrow> py_index (length (g ! i)) py;
       Some (g[i := (g ! i)[j := v]])
     }"

section \<open>Warehouse methods\<close>

definition is_valid_position :: "warehouse \<Rightarrow> int \<Rightarrow> int \<Rightarrow> bool" where
  "is_valid_position w px py \<longleftrightarrow> 0 \<le> px \<and> px < width w \<and> 0 \<le> py \<and> py < height w"

definition get_cell_type :: "warehouse \<Rightarrow> int \<Rightarrow> int \<Rightarrow> cell_type option" where
  "get_cell_type w px py =
     (if \<not> is_valid_position w px py then Some Wall
      else do {
        cell \<leftarrow> grid_get (grid w) px py;
        Some (if cell = 0 then Empty
              else if cell = 1 then Wall
              else if cell = 2 then Box
              else if cell \<ge> 3 then Robot
              else Unknown)
      })"

definition can_move_to :: "warehouse \<Rightarrow> int \<Rightarrow> int \<Rightarrow> int \<Rightarrow> bool option" where
  "can_move_to w px py aid =
     (if \<not> is_valid_position w px py then Some False
      else do {
        cell \<leftarrow> grid_get (grid w) px py;
        Some (cell = 0 \<or> cell = 2)
      })"

text \<open>
  \<^verbatim>\<open>get_box_at\<close> returns the top box object or Python's \<^verbatim>\<open>None\<close> (the inner
  option); \<^verbatim>\<open>self.boxes[...]\<close> raises KeyError on an unknown id (the outer one).
\<close>

definition get_box_at :: "warehouse \<Rightarrow> int \<Rightarrow> int \<Rightarrow> box option option" where
  "get_box_at w px py =
     (case map_of (box_locations w) (px, py) of
        None \<Rightarrow> Some None
      | Some ids \<Rightarrow>
          if ids = [] then Some None
          else (case boxes w (last ids) of None \<Rightarrow> None | Some b \<Rightarrow> Some (Some b)))"

definition count_stack_size :: "warehouse \<Rightarrow> int \<Rightarrow> int \<Rightarrow> int" where
  "count_stack_size w px py =
     (case map_of (box_locations w) (px, py) of
        None \<Rightarrow> 0
      | Some ids \<Rightarrow> int (length ids))"

definition can_pick_up_box :: "warehouse \<Rightarrow> int \<Rightarrow> int \<Rightarrow> bool" where
  "can_pick_up_box w px py \<longleftrightarrow> count_stack_size w px py = 1"

definition can_place_box :: "warehouse \<Rightarrow> int \<Rightarrow> int \<Rightarrow> int \<Rightarrow> bool option" where
  "can_place_box w px py aid =
     do {
       cell \<leftarrow> grid_get (grid w) px py;
       Some (if count_stack_size w px py \<ge> 5 then False
             else if cell \<ge> 3 then cell - 3 = aid
             else True)
     }"

definition remove_box_from_grid :: "warehouse \<Rightarrow> int \<Rightarrow> int \<Rightarrow> warehouse option" where
  "remove_box_from_grid w px py =
     (case map_of (box_locations w) (px, py) of
        None \<Rightarrow> Some w
      | Some ids \<Rightarrow>
          if ids = [] then Some w
          else do {
            let bid = last ids;
            let rest = butlast ids;
            let w1 = w\<lparr>box_locations := AList.update (px, py) rest (box_locations w),
                       processed_boxes := insert bid (processed_boxes w)\<rparr>;
            b \<leftarrow> boxes w1 bid;
            let w2 = w1\<lparr>boxes := (boxes w1)(bid \<mapsto> b\<lparr>in_stack := False, stack_size := 1\<rparr>)\<rparr>;
            if rest = [] then do {
              current_value \<leftarrow> grid_get (grid w2) px py;
              g \<leftarrow> (if current_value = 2 then grid_set (grid w2) px py 0 else Some (grid w2));
              Some (w2\<lparr>grid := g, box_locations := AList.delete (px, py) (box_locations w2)\<rparr>)
            } else Some w2
          })"

text \<open>
  \<^verbatim>\<open>place_box\<close> is called with \<^verbatim>\<open>self.carried_box_id\<close>, which is Python's
  \<^verbatim>\<open>None\<close> while nothing is carried; \<^verbatim>\<open>self.boxes[None]\<close> then raises KeyError.
\<close>

definition place_box :: "warehouse \<Rightarrow> int \<Rightarrow> int \<Rightarrow> int option \<Rightarrow> int \<Rightarrow> warehouse option" where
  "place_box w px py bid_opt aid =
     do {
       let ids = (case map_of (box_locations w) (px, py) of None \<Rightarrow> [] | Some ids \<Rightarrow> ids);
       current_value \<leftarrow> grid_get (grid w) px py;
       g \<leftarrow> (if current_value < 3 then grid_set (grid w) px py 2 else Some (grid w));
       bid \<leftarrow> bid_opt;
       b \<leftarrow> boxes w bid;
       d \<leftarrow> agent_deliveries w aid;
       Some (w\<lparr>box_locations := AList.update (px, py) (ids @ [bid]) (box_locations w),
               grid := g,
               boxes := (boxes w)(bid \<mapsto> b\<lparr>box_x := px, box_y := py, in_stack := True,
                                           stack_size := int (length ids) + 1\<rparr>),
               agent_deliveries := (agent_deliveries w)(aid \<mapsto> d + 1)\<rparr>)
     }"

section \<open>Agent methods: messaging and claims\<close>

definition update_self :: "warehouse \<Rightarrow> nat \<Rightarrow> (agent \<Rightarrow> agent) \<Rightarrow> warehouse" where
  "update_self w i f = w\<lparr>agents := (agents w)[i := f (agents w ! i)]\<rparr>"

definition receive_message :: "agent \<Rightarrow> message \<Rightarrow> agent" where
  "receive_message a m = a\<lparr>messages := messages a @ [m]\<rparr>"

definition in_broadcast_range :: "agent \<Rightarrow> agent \<Rightarrow> bool" where
  "in_broadcast_range self a \<longleftrightarrow>
     agent_id a \<noteq> agent_id self \<and>
     \<bar>agent_x a - agent_x self\<bar> + \<bar>agent_y a - agent_y self\<bar> \<le> communication_range self"

definition broadcast_message :: "warehouse \<Rightarrow> nat \<Rightarrow> message \<Rightarrow> warehouse" where
  "broadcast_message w i m =
     (let self = agents w ! i
      in w\<lparr>agents := map (\<lambda>a. if in_broadcast_range self a then receive_message a m else a)
                          (agents w)\<rparr>)"

definition process_message :: "agent \<Rightarrow> message \<Rightarrow> agent" where
  "process_message a m =
     (let pos = position m in
      case msg_type m of
        BOX_DISCOVERED \<Rightarrow>
          if pos \<notin> set (known_unassigned_boxes a)
          then a\<lparr>known_unassigned_boxes := known_unassigned_boxes a @ [pos]\<rparr>
          else a
      | TARGET_CLAIMED \<Rightarrow>
          (let a1 = a\<lparr>claimed_targets := (claimed_targets a)(pos \<mapsto> from_agent m)\<rparr>
           in if from_agent m \<noteq> agent_id a1 \<and> pos \<in> set (known_unassigned_boxes a1)
              then a1\<lparr>known_unassigned_boxes := remove1 pos (known_unassigned_boxes a1)\<rparr>
              else a1)
      | TARGET_RELEASED \<Rightarrow>
          if pos \<in> dom (claimed_targets a)
          then a\<lparr>claimed_targets := (claimed_targets a)(pos := None)\<rparr>
          else a
      | BOX_PICKED \<Rightarrow>
          if pos \<in> set (known_unassigned_boxes a)
          then a\<lparr>known_unassigned_boxes := remove1 pos (known_unassigned_boxes a)\<rparr>
          else a)"

definition process_messages :: "warehouse \<Rightarrow> nat \<Rightarrow> warehouse" where
  "process_messages w i =
     update_self w i (\<lambda>a. (foldl process_message a (messages a))\<lparr>messages := []\<rparr>)"

definition claim_target :: "warehouse \<Rightarrow> nat \<Rightarrow> int \<times> int \<Rightarrow> warehouse" where
  "claim_target w i pos =
     (let w1 = update_self w i (\<lambda>a. a\<lparr>claimed_targets := (claimed_targets a)(pos \<mapsto> agent_id a)\<rparr>)
      in broadcast_message w1 i
           \<lparr>msg_type = TARGET_CLAIMED, position = pos, from_agent = agent_id (agents w1 ! i)\<rparr>)"

definition release_target :: "warehouse \<Rightarrow> nat \<Rightarrow> int \<times> int \<Rightarrow> warehouse" where
  "release_target w i pos =
     (let self = agents w ! i in
      if claimed_targets self pos = Some (agent_id self) then
        (let w1 = update_self w i (\<lambda>a. a\<lparr>claimed_targets := (claimed_targets a)(pos := None)\<rparr>)
         in broadcast_message w1 i
              \<lparr>msg_type = TARGET_RELEASED, position = pos, from_agent = agent_id self\<rparr>)
      else w)"

definition is_target_available :: "agent \<Rightarrow> int \<times> int \<Rightarrow> bool" where
  "is_target_available a pos \<longleftrightarrow>
     claimed_targets a pos = None \<or> claimed_targets a pos = Some (agent_id a)"

section \<open>Agent methods: sensing\<close>

text \<open>
  \<^verbatim>\<open>any(agent.state == "DELIVERING" and agent.target == (nx, ny) for agent in
  self.warehouse.agents if agent.id != self.id)\<close>
\<close>

definition is_shelf_target :: "warehouse \<Rightarrow> nat \<Rightarrow> int \<times> int \<Rightarrow> bool" where
  "is_shelf_target w i pos \<longleftrightarrow>
     list_ex (\<lambda>a. agent_id a \<noteq> agent_id (agents w ! i) \<and> state a = DELIVERING \<and> target a = Some pos)
       (agents w)"

text \<open>
  The block that records a discovery: the local append, and the broadcast that only a
  searching agent makes.
\<close>

definition record_discovery :: "warehouse \<Rightarrow> nat \<Rightarrow> int \<times> int \<Rightarrow> warehouse" where
  "record_discovery w i pos =
     (let w1 = update_self w i
                 (\<lambda>a. a\<lparr>known_unassigned_boxes := known_unassigned_boxes a @ [pos]\<rparr>)
      in if state (agents w1 ! i) = SEARCHING
         then broadcast_message w1 i
                \<lparr>msg_type = BOX_DISCOVERED, position = pos, from_agent = agent_id (agents w1 ! i)\<rparr>
         else w1)"

text \<open>
  One iteration of the inner loop of \<^verbatim>\<open>sense_environment\<close>, on the cell
  \<open>(nx, ny)\<close>. The flag of the result says whether the ray stops
  (\<^verbatim>\<open>break\<close>).
\<close>

definition sense_cell :: "warehouse \<Rightarrow> nat \<Rightarrow> int \<Rightarrow> int \<Rightarrow> (bool \<times> warehouse) option" where
  "sense_cell w i nx ny =
     (if \<not> is_valid_position w nx ny then Some (True, w)
      else do {
        ct \<leftarrow> get_cell_type w nx ny;
        if ct = Wall then Some (True, w)
        else if ct = Box \<and> count_stack_size w nx ny = 1
                \<and> \<not> is_shelf_target w i (nx, ny)
                \<and> (nx, ny) \<notin> set (known_unassigned_boxes (agents w ! i))
        then Some (False, record_discovery w i (nx, ny))
        else Some (False, w)
      })"

fun sense_ray :: "warehouse \<Rightarrow> nat \<Rightarrow> int \<times> int \<Rightarrow> int list \<Rightarrow> warehouse option" where
  "sense_ray w i d [] = Some w"
| "sense_ray w i d (distance # rest) =
     (case sense_cell w i (agent_x (agents w ! i) + fst d * distance)
                          (agent_y (agents w ! i) + snd d * distance) of
        None \<Rightarrow> None
      | Some (stop, w1) \<Rightarrow> if stop then Some w1 else sense_ray w1 i d rest)"

definition directions :: "(int \<times> int) list" where
  "directions = [(0, -1), (0, 1), (-1, 0), (1, 0)]"

fun sense_rays :: "warehouse \<Rightarrow> nat \<Rightarrow> (int \<times> int) list \<Rightarrow> warehouse option" where
  "sense_rays w i [] = Some w"
| "sense_rays w i (d # ds) =
     (case sense_ray w i d [1 .. sensor_range (agents w ! i)] of
        None \<Rightarrow> None
      | Some w1 \<Rightarrow> sense_rays w1 i ds)"

definition sense_environment :: "warehouse \<Rightarrow> nat \<Rightarrow> warehouse option" where
  "sense_environment w i = sense_rays w i directions"

section \<open>Agent methods: choosing targets\<close>

text \<open>
  \<^verbatim>\<open>candidates.sort(reverse=True); return candidates[0][1:]\<close>: Python orders
  tuples lexicographically, as \<open>Product_Lexorder\<close> orders products.
\<close>

definition best_candidate :: "(int \<times> int \<times> int) list \<Rightarrow> int \<times> int" where
  "best_candidate candidates = snd (hd (rev (sort candidates)))"

definition manhattan :: "int \<Rightarrow> int \<Rightarrow> int \<Rightarrow> int \<Rightarrow> int" where
  "manhattan ax ay bx by = \<bar>ax - bx\<bar> + \<bar>ay - by\<bar>"

text \<open>
  The score of an empty spot is the float
  \<^verbatim>\<open>-distance_to_center - (distance_to_agent * 0.5)\<close>. Both distances are
  integers, so the score is a multiple of one half, exact in binary floating point;
  the model keeps twice the score, which orders the candidates the same way.
\<close>

fun empty_spot_candidates ::
  "warehouse \<Rightarrow> nat \<Rightarrow> (int \<times> int) list \<Rightarrow> (int \<times> int \<times> int) list option" where
  "empty_spot_candidates w i [] = Some []"
| "empty_spot_candidates w i ((px, py) # rest) =
     do {
       ct \<leftarrow> get_cell_type w px py;
       cs \<leftarrow> empty_spot_candidates w i rest;
       let self = agents w ! i;
       let distance_to_center = manhattan px py (width w div 2) (height w div 2);
       let distance_to_agent = manhattan (agent_x self) (agent_y self) px py;
       Some (if ct = Empty \<and> is_target_available self (px, py)
             then (- 2 * distance_to_center - distance_to_agent, px, py) # cs
             else cs)
     }"

definition interior_positions :: "warehouse \<Rightarrow> (int \<times> int) list" where
  "interior_positions w =
     concat (map (\<lambda>px. map (\<lambda>py. (px, py)) [1 .. height w - 2]) [1 .. width w - 2])"

definition find_empty_spot_for_new_shelf :: "warehouse \<Rightarrow> nat \<Rightarrow> (int \<times> int) option option" where
  "find_empty_spot_for_new_shelf w i =
     do {
       candidates \<leftarrow> empty_spot_candidates w i (interior_positions w);
       Some (if candidates \<noteq> [] then Some (best_candidate candidates) else None)
     }"

definition shelf_candidates :: "warehouse \<Rightarrow> nat \<Rightarrow> (int \<times> int \<times> int) list" where
  "shelf_candidates w i =
     (let self = agents w ! i in
      map (\<lambda>((sx, sy), ids). (- manhattan (agent_x self) (agent_y self) sx sy, sx, sy))
        (filter (\<lambda>((sx, sy), ids).
                   1 \<le> length ids \<and> length ids < 5 \<and>
                   (is_target_available self (sx, sy) \<or> target self = Some (sx, sy)))
           (box_locations w)))"

definition find_nearest_shelf :: "warehouse \<Rightarrow> nat \<Rightarrow> (int \<times> int) option option" where
  "find_nearest_shelf w i =
     (let candidates = shelf_candidates w i in
      if candidates \<noteq> [] then Some (Some (best_candidate candidates))
      else find_empty_spot_for_new_shelf w i)"

text \<open>
  The loop of \<^verbatim>\<open>find_nearest_known_box\<close> runs over a copy of the known
  coordinates and removes the stale ones from the agent's own list.
\<close>

fun known_box_scan ::
  "warehouse \<Rightarrow> nat \<Rightarrow> (int \<times> int) list \<Rightarrow> (int \<times> int \<times> int) list
     \<Rightarrow> (int \<times> int \<times> int) list \<times> warehouse" where
  "known_box_scan w i [] candidates = (candidates, w)"
| "known_box_scan w i ((bx, by) # rest) candidates =
     (if is_valid_position w bx by then
        (if count_stack_size w bx by = 0 \<or> count_stack_size w bx by > 1 then
           known_box_scan
             (if (bx, by) \<in> set (known_unassigned_boxes (agents w ! i))
              then update_self w i
                     (\<lambda>a. a\<lparr>known_unassigned_boxes := remove1 (bx, by) (known_unassigned_boxes a)\<rparr>)
              else w)
             i rest candidates
         else if count_stack_size w bx by = 1
                 \<and> \<not> is_shelf_target w i (bx, by)
                 \<and> is_target_available (agents w ! i) (bx, by)
         then known_box_scan w i rest
                (candidates @ [(manhattan (agent_x (agents w ! i)) (agent_y (agents w ! i)) bx by, bx, by)])
         else known_box_scan w i rest candidates)
      else known_box_scan w i rest candidates)"

definition find_nearest_known_box :: "warehouse \<Rightarrow> nat \<Rightarrow> (int \<times> int) option \<times> warehouse" where
  "find_nearest_known_box w i =
     (if known_unassigned_boxes (agents w ! i) = [] then (None, w)
      else
        (let (candidates, w1) = known_box_scan w i (known_unassigned_boxes (agents w ! i)) []
         in if candidates \<noteq> [] then (Some (snd (hd (sort candidates))), w1) else (None, w1)))"

text \<open>
  Randomness is an explicit input. \<^verbatim>\<open>random.randint(lo, hi)\<close> maps a natural
  number drawn by the caller into \<open>[lo, hi]\<close> and raises ValueError on an empty range.
  The \<^verbatim>\<open>while True\<close> loop of \<^verbatim>\<open>find_random_search_point\<close> consumes one pair
  of draws per iteration; with no draw left it has not returned (\<open>None\<close>).
\<close>

definition randint :: "int \<Rightarrow> int \<Rightarrow> nat \<Rightarrow> int option" where
  "randint lo hi r = (if hi < lo then None else Some (lo + int r mod (hi - lo + 1)))"

fun find_random_search_point :: "warehouse \<Rightarrow> (nat \<times> nat) list \<Rightarrow> (int \<times> int) option" where
  "find_random_search_point w [] = None"
| "find_random_search_point w ((rx, ry) # draws) =
     do {
       px \<leftarrow> randint 1 (width w - 2) rx;
       py \<leftarrow> randint 1 (height w - 2) ry;
       ct \<leftarrow> get_cell_type w px py;
       if ct \<noteq> Wall then Some (px, py) else find_random_search_point w draws
     }"

section \<open>Breadth-first search\<close>

text \<open>
  The body of the \<^verbatim>\<open>for dx, dy in directions\<close> loop for the queue entry
  \<open>(cx, cy, p)\<close>: it returns the finished route (\<open>Inl\<close>) as soon as a step reaches
  the target, and otherwise the grown visited set and queue (\<open>Inr\<close>).
\<close>

fun bfs_neighbors ::
  "warehouse \<Rightarrow> int \<times> int \<Rightarrow> int \<Rightarrow> int \<Rightarrow> (int \<times> int) list \<Rightarrow> (int \<times> int) list
     \<Rightarrow> (int \<times> int) set \<Rightarrow> (int \<times> int \<times> (int \<times> int) list) list
     \<Rightarrow> ((int \<times> int) list + (int \<times> int) set \<times> (int \<times> int \<times> (int \<times> int) list) list) option"
  where
  "bfs_neighbors w t cx cy p [] visited queue = Some (Inr (visited, queue))"
| "bfs_neighbors w t cx cy p ((dx, dy) # ds) visited queue =
     (if (cx + dx, cy + dy) \<in> visited then bfs_neighbors w t cx cy p ds visited queue
      else if \<not> is_valid_position w (cx + dx) (cy + dy)
      then bfs_neighbors w t cx cy p ds visited queue
      else
        (case grid_get (grid w) (cx + dx) (cy + dy) of
           None \<Rightarrow> None
         | Some cell \<Rightarrow>
             if cell = 0 \<or> cell = 2 \<or> (cx + dx, cy + dy) = t then
               (if (cx + dx, cy + dy) = t then Some (Inl (p @ [(dx, dy)]))
                else bfs_neighbors w t cx cy p ds (insert (cx + dx, cy + dy) visited)
                       (queue @ [(cx + dx, cy + dy, p @ [(dx, dy)])]))
             else bfs_neighbors w t cx cy p ds visited queue))"

text \<open>
  The \<^verbatim>\<open>while queue\<close> loop terminates: every iteration pops one entry, and every
  entry pushed marks one more valid cell as visited.
\<close>

definition valid_cells :: "warehouse \<Rightarrow> (int \<times> int) set" where
  "valid_cells w = {(px, py). is_valid_position w px py}"

lemma finite_valid_cells: "finite (valid_cells w)"
proof -
  have "valid_cells w \<subseteq> {0..<width w} \<times> {0..<height w}"
    by (auto simp: valid_cells_def is_valid_position_def)
  then show ?thesis by (rule finite_subset) simp
qed

lemma bfs_neighbors_measure:
  "bfs_neighbors w t cx cy p ds visited queue = Some (Inr (visited', queue')) \<Longrightarrow>
   2 * card (valid_cells w - visited') + length queue'
     \<le> 2 * card (valid_cells w - visited) + length queue"
proof (induction ds arbitrary: visited queue)
  case Nil
  then show ?case by simp
next
  case (Cons d ds)
  obtain dx dy where d: "d = (dx, dy)" by (cases d)
  let ?n = "(cx + dx, cy + dy)"
  show ?case
  proof (cases "?n \<in> visited \<or> \<not> is_valid_position w (cx + dx) (cy + dy)")
    case True
    with Cons.prems d have "bfs_neighbors w t cx cy p ds visited queue = Some (Inr (visited', queue'))"
      by (auto split: if_splits)
    then show ?thesis by (rule Cons.IH)
  next
    case False
    then have nv: "?n \<notin> visited" and val: "?n \<in> valid_cells w"
      by (auto simp: valid_cells_def)
    from Cons.prems d False obtain cell where cell: "grid_get (grid w) (cx + dx) (cy + dy) = Some cell"
      by (auto split: option.splits)
    show ?thesis
    proof (cases "(cell = 0 \<or> cell = 2 \<or> ?n = t) \<and> ?n \<noteq> t")
      case True
      with Cons.prems d False cell
      have "bfs_neighbors w t cx cy p ds (insert ?n visited) (queue @ [(cx + dx, cy + dy, p @ [(dx, dy)])])
              = Some (Inr (visited', queue'))"
        by (auto split: if_splits)
      from Cons.IH[OF this]
      have le: "2 * card (valid_cells w - visited') + length queue'
              \<le> 2 * card (valid_cells w - insert ?n visited) + (length queue + 1)" by simp
      have "?n \<in> valid_cells w - visited" using nv val by simp
      then have "card (valid_cells w - insert ?n visited) < card (valid_cells w - visited)"
        using finite_valid_cells[of w]
        by (metis Diff_insert card_Diff1_less finite_Diff)
      with le show ?thesis by linarith
    next
      case False
      with Cons.prems d \<open>\<not> (?n \<in> visited \<or> \<not> is_valid_position w (cx + dx) (cy + dy))\<close> cell
      have "bfs_neighbors w t cx cy p ds visited queue = Some (Inr (visited', queue'))"
        by (auto split: if_splits)
      then show ?thesis by (rule Cons.IH)
    qed
  qed
qed

function bfs_loop ::
  "warehouse \<Rightarrow> int \<times> int \<Rightarrow> (int \<times> int) set \<Rightarrow> (int \<times> int \<times> (int \<times> int) list) list
     \<Rightarrow> (int \<times> int) list option" where
  "bfs_loop w t visited [] = Some []"
| "bfs_loop w t visited ((cx, cy, p) # queue) =
     (case bfs_neighbors w t cx cy p directions visited queue of
        None \<Rightarrow> None
      | Some (Inl route) \<Rightarrow> Some route
      | Some (Inr (visited', queue')) \<Rightarrow> bfs_loop w t visited' queue')"
  by pat_completeness auto
termination
proof (relation "measure (\<lambda>(w, t, visited, queue). 2 * card (valid_cells w - visited) + length queue)")
  show "wf (measure (\<lambda>(w, t, visited, queue). 2 * card (valid_cells w - visited) + length queue))"
    by simp
next
  fix w t visited cx cy p queue x2 a x2a xa y
  assume "bfs_neighbors w t cx cy p directions visited queue = Some x2"
    and "x2 = Inr x2a" and "(xa, y) = x2a"
  then have "bfs_neighbors w t cx cy p directions visited queue = Some (Inr (xa, y))" by simp
  from bfs_neighbors_measure[OF this]
  show "((w, t, xa, y), w, t, visited, (cx, cy, p) # queue)
       \<in> measure (\<lambda>(w, t, visited, queue). 2 * card (valid_cells w - visited) + length queue)"
    by simp
qed

definition find_path_to :: "warehouse \<Rightarrow> nat \<Rightarrow> int \<Rightarrow> int \<Rightarrow> (int \<times> int) list option" where
  "find_path_to w i target_x target_y =
     (let self = agents w ! i in
      if (agent_x self, agent_y self) = (target_x, target_y) then Some []
      else bfs_loop w (target_x, target_y) {(agent_x self, agent_y self)}
             [(agent_x self, agent_y self, [])])"

section \<open>Agent methods: actions\<close>

definition pick_up_box :: "warehouse \<Rightarrow> nat \<Rightarrow> int \<Rightarrow> int \<Rightarrow> (bool \<times> warehouse) option" where
  "pick_up_box w i px py =
     (if carrying_box (agents w ! i) then Some (False, w)
      else do {
        found \<leftarrow> get_box_at w px py;
        case found of
          None \<Rightarrow> Some (False, w)
        | Some b \<Rightarrow>
            if can_pick_up_box w px py then do {
              let w1 = update_self w i (\<lambda>a. a\<lparr>carrying_box := True, carried_box_id := Some (box_id b)\<rparr>);
              w2 \<leftarrow> remove_box_from_grid w1 px py;
              let w3 = (if (px, py) \<in> set (known_unassigned_boxes (agents w2 ! i))
                        then update_self w2 i
                               (\<lambda>a. a\<lparr>known_unassigned_boxes := remove1 (px, py) (known_unassigned_boxes a)\<rparr>)
                        else w2);
              Some (True, broadcast_message w3 i
                      \<lparr>msg_type = BOX_PICKED, position = (px, py),
                       from_agent = agent_id (agents w3 ! i)\<rparr>)
            }
            else Some (False, w)
      })"

definition drop_box :: "warehouse \<Rightarrow> nat \<Rightarrow> (bool \<times> warehouse) option" where
  "drop_box w i =
     (let self = agents w ! i in
      if \<not> carrying_box self then Some (False, w)
      else do {
        ok \<leftarrow> can_place_box w (agent_x self) (agent_y self) (agent_id self);
        if ok then do {
          w1 \<leftarrow> place_box w (agent_x self) (agent_y self) (carried_box_id self) (agent_id self);
          Some (True, update_self w1 i (\<lambda>a. a\<lparr>carrying_box := False, carried_box_id := None\<rparr>))
        }
        else Some (False, w)
      })"

definition move :: "warehouse \<Rightarrow> nat \<Rightarrow> int \<times> int \<Rightarrow> (bool \<times> warehouse) option" where
  "move w i direction =
     (let self = agents w ! i;
          nx = agent_x self + fst direction;
          ny = agent_y self + snd direction
      in do {
        ok \<leftarrow> can_move_to w nx ny (agent_id self);
        if ok then do {
          old_value \<leftarrow> grid_get (grid w) (agent_x self) (agent_y self);
          g1 \<leftarrow> (if old_value \<ge> 3
                 then (if count_stack_size w (agent_x self) (agent_y self) > 0
                       then grid_set (grid w) (agent_x self) (agent_y self) 2
                       else grid_set (grid w) (agent_x self) (agent_y self) 0)
                 else Some (grid w));
          g2 \<leftarrow> grid_set g1 nx ny (3 + agent_id self);
          let w1 = update_self (w\<lparr>grid := g2\<rparr>) i
                     (\<lambda>a. a\<lparr>agent_x := nx, agent_y := ny, movements := movements a + 1\<rparr>);
          w2 \<leftarrow> sense_environment w1 i;
          Some (True, w2)
        }
        else Some (False, w)
      })"

section \<open>The agent state machine\<close>

text \<open>
  Two statement sequences recur in \<^verbatim>\<open>decide_action\<close> and \<^verbatim>\<open>execute_action\<close>:
  \<^verbatim>\<open>if self.target: self.release_target(self.target)\<close>, and
  \<^verbatim>\<open>self.target = pos; self.claim_target(pos); self.path = self.find_path_to(pos[0], pos[1])\<close>.
\<close>

definition release_current_target :: "warehouse \<Rightarrow> nat \<Rightarrow> warehouse" where
  "release_current_target w i =
     (case target (agents w ! i) of None \<Rightarrow> w | Some t \<Rightarrow> release_target w i t)"

definition route_to :: "warehouse \<Rightarrow> nat \<Rightarrow> int \<times> int \<Rightarrow> warehouse option" where
  "route_to w i pos =
     do {
       p \<leftarrow> find_path_to w i (fst pos) (snd pos);
       Some (update_self w i (\<lambda>a. a\<lparr>path := p\<rparr>))
     }"

definition claim_and_route :: "warehouse \<Rightarrow> nat \<Rightarrow> int \<times> int \<Rightarrow> warehouse option" where
  "claim_and_route w i pos =
     route_to (claim_target (update_self w i (\<lambda>a. a\<lparr>target := Some pos\<rparr>)) i pos) i pos"

text \<open>
  \<open>reroll\<close> is the outcome of \<^verbatim>\<open>random.random() < 0.1\<close> and \<open>draws\<close> feeds
  \<^verbatim>\<open>find_random_search_point\<close>.
\<close>

definition decide_action :: "warehouse \<Rightarrow> nat \<Rightarrow> bool \<Rightarrow> (nat \<times> nat) list \<Rightarrow> warehouse option" where
  "decide_action w i reroll draws =
     do {
       w2 \<leftarrow> sense_environment (process_messages w i) i;
       case state (agents w2 ! i) of
         SEARCHING \<Rightarrow>
           (case find_nearest_known_box w2 i of
              (Some known_box, w3) \<Rightarrow>
                claim_and_route (update_self w3 i (\<lambda>a. a\<lparr>state := PICKING_UP\<rparr>)) i known_box
            | (None, w3) \<Rightarrow>
                if path (agents w3 ! i) = [] \<or> reroll then do {
                  random_point \<leftarrow> find_random_search_point w3 draws;
                  route_to (update_self w3 i (\<lambda>a. a\<lparr>target := Some random_point\<rparr>)) i random_point
                }
                else Some w3)
       | DELIVERING \<Rightarrow>
           do {
             found \<leftarrow> find_nearest_shelf w2 i;
             case found of
               Some shelf \<Rightarrow>
                 if target (agents w2 ! i) \<noteq> Some shelf
                 then claim_and_route (release_current_target w2 i) i shelf
                 else if path (agents w2 ! i) = [] then route_to w2 i shelf
                 else Some w2
             | None \<Rightarrow>
                 do {
                   (success, w3) \<leftarrow> drop_box w2 i;
                   Some (update_self w3 i (\<lambda>a. a\<lparr>state := SEARCHING\<rparr>))
                 }
           }
       | PICKING_UP \<Rightarrow>
           (case target (agents w2 ! i) of
              Some t \<Rightarrow>
                if is_target_available (agents w2 ! i) t
                then (if path (agents w2 ! i) = [] then route_to w2 i t else Some w2)
                else
                  (case find_nearest_known_box (release_target w2 i t) i of
                     (Some known_box, w4) \<Rightarrow> claim_and_route w4 i known_box
                   | (None, w4) \<Rightarrow>
                       Some (update_self w4 i (\<lambda>a. a\<lparr>state := SEARCHING, target := None\<rparr>)))
            | None \<Rightarrow>
                (case find_nearest_known_box w2 i of
                   (Some known_box, w4) \<Rightarrow> claim_and_route w4 i known_box
                 | (None, w4) \<Rightarrow>
                     Some (update_self w4 i (\<lambda>a. a\<lparr>state := SEARCHING, target := None\<rparr>))))
     }"

text \<open>
  The arrival branch of \<^verbatim>\<open>execute_action\<close>, taken when the route is used up and
  the agent stands on its target.
\<close>

definition on_arrival :: "warehouse \<Rightarrow> nat \<Rightarrow> warehouse option" where
  "on_arrival w i =
     (case state (agents w ! i) of
        PICKING_UP \<Rightarrow>
          do {
            (success, w1) \<leftarrow> pick_up_box w i (agent_x (agents w ! i)) (agent_y (agents w ! i));
            Some (update_self (release_current_target w1 i) i
                    (\<lambda>a. a\<lparr>state := (if success then DELIVERING else SEARCHING), target := None\<rparr>))
          }
      | DELIVERING \<Rightarrow>
          do {
            (success, w1) \<leftarrow> drop_box w i;
            let w2 = update_self (release_current_target w1 i) i (\<lambda>a. a\<lparr>target := None\<rparr>);
            case find_nearest_known_box w2 i of
              (Some known_box, w3) \<Rightarrow>
                claim_and_route (update_self w3 i (\<lambda>a. a\<lparr>state := PICKING_UP\<rparr>)) i known_box
            | (None, w3) \<Rightarrow> Some (update_self w3 i (\<lambda>a. a\<lparr>state := SEARCHING\<rparr>))
          }
      | SEARCHING \<Rightarrow> Some (update_self w i (\<lambda>a. a\<lparr>target := None\<rparr>)))"

text \<open>
  The first half of \<^verbatim>\<open>execute_action\<close> when a route is planned: pop its first
  direction, try the move, and forget the route when the move is refused.
\<close>

definition advance :: "warehouse \<Rightarrow> nat \<Rightarrow> warehouse option" where
  "advance w i =
     do {
       let direction = hd (path (agents w ! i));
       (success, w1) \<leftarrow> move (update_self w i (\<lambda>a. a\<lparr>path := tl (path a)\<rparr>)) i direction;
       Some (if \<not> success then update_self w1 i (\<lambda>a. a\<lparr>path := []\<rparr>) else w1)
     }"

definition execute_action :: "warehouse \<Rightarrow> nat \<Rightarrow> warehouse option" where
  "execute_action w i =
     (if path (agents w ! i) \<noteq> [] then do {
        w2 \<leftarrow> advance w i;
        if path (agents w2 ! i) = []
           \<and> target (agents w2 ! i) = Some (agent_x (agents w2 ! i), agent_y (agents w2 ! i))
        then on_arrival w2 i
        else Some w2
      }
      else sense_environment w i)"

section \<open>Well-formed warehouses\<close>

text \<open>
  The cell of an in-bounds coordinate, read without Python's index arithmetic.
\<close>

definition cell_at :: "warehouse \<Rightarrow> int \<Rightarrow> int \<Rightarrow> int" where
  "cell_at w px py = grid w ! nat px ! nat py"

text \<open>
  The grid is a list of \<open>width\<close> columns of \<open>height\<close> cells, as
  \<^verbatim>\<open>[[0 for _ in range(height)] for _ in range(width)]\<close> builds it.
\<close>

definition grid_ok :: "warehouse \<Rightarrow> bool" where
  "grid_ok w \<longleftrightarrow>
     length (grid w) = nat (width w) \<and> (\<forall>col \<in> set (grid w). length col = nat (height w))"

text \<open>
  Agents have distinct, non-negative identifiers; each stands on an in-bounds cell
  that carries its marker \<open>3 + id\<close>; and every cell marked as occupied has an
  agent on it.
\<close>

definition agents_ok :: "warehouse \<Rightarrow> bool" where
  "agents_ok w \<longleftrightarrow>
     distinct (map agent_id (agents w)) \<and>
     (\<forall>a \<in> set (agents w).
        is_valid_position w (agent_x a) (agent_y a) \<and>
        cell_at w (agent_x a) (agent_y a) = 3 + agent_id a \<and> 0 \<le> agent_id a) \<and>
     (\<forall>px py. is_valid_position w px py \<and> cell_at w px py \<ge> 3 \<longrightarrow>
        (\<exists>a \<in> set (agents w). agent_x a = px \<and> agent_y a = py))"

lemma py_index_valid: "0 \<le> i \<Longrightarrow> i < int n \<Longrightarrow> py_index n i = Some (nat i)"
  by (simp add: py_index_def)

lemma grid_get_valid:
  assumes "grid_ok w" "is_valid_position w px py"
  shows "grid_get (grid w) px py = Some (cell_at w px py)"
proof -
  from assms have x: "0 \<le> px" "px < int (length (grid w))"
    by (auto simp: grid_ok_def is_valid_position_def)
  then have "grid w ! nat px \<in> set (grid w)" by simp
  with assms have y: "0 \<le> py" "py < int (length (grid w ! nat px))"
    by (auto simp: grid_ok_def is_valid_position_def)
  show ?thesis
    using x y by (simp add: grid_get_def py_index_valid cell_at_def)
qed

lemma grid_set_valid:
  assumes "grid_ok w" "is_valid_position w px py"
  shows "grid_set (grid w) px py v = Some ((grid w)[nat px := (grid w ! nat px)[nat py := v]])"
proof -
  from assms have x: "0 \<le> px" "px < int (length (grid w))"
    by (auto simp: grid_ok_def is_valid_position_def)
  then have "grid w ! nat px \<in> set (grid w)" by simp
  with assms have y: "0 \<le> py" "py < int (length (grid w ! nat px))"
    by (auto simp: grid_ok_def is_valid_position_def)
  show ?thesis
    using x y by (simp add: grid_set_def py_index_valid)
qed

lemma can_place_box_valid:
  assumes "grid_ok w" "is_valid_position w px py"
  shows "can_place_box w px py aid =
     Some (count_stack_size w px py < 5 \<and> (cell_at w px py \<ge> 3 \<longrightarrow> cell_at w px py - 3 = aid))"
  using assms by (auto simp: can_place_box_def grid_get_valid)

text \<open>
  The stack of box ids at a coordinate; empty where \<open>box_locations\<close> has no entry.
\<close>

definition stack_at :: "warehouse \<Rightarrow> int \<times> int \<Rightarrow> int list" where
  "stack_at w pos = (case map_of (box_locations w) pos of None \<Rightarrow> [] | Some ids \<Rightarrow> ids)"

text \<open>
  Coordinates are unique keys, no stored stack is empty and none is higher than five.
\<close>

definition stacks_ok :: "warehouse \<Rightarrow> bool" where
  "stacks_ok w \<longleftrightarrow>
     distinct (map fst (box_locations w)) \<and>
     (\<forall>(pos, ids) \<in> set (box_locations w). ids \<noteq> [] \<and> length ids \<le> 5)"

text \<open>
  Every box id in a stack or in an agent's hands is a key of the \<open>boxes\<close> table, whose
  objects carry their own key as id, and every agent has a delivery counter.
\<close>

definition boxes_ok :: "warehouse \<Rightarrow> bool" where
  "boxes_ok w \<longleftrightarrow>
     (\<forall>k b. boxes w k = Some b \<longrightarrow> box_id b = k) \<and>
     (\<forall>(pos, ids) \<in> set (box_locations w). set ids \<subseteq> dom (boxes w)) \<and>
     (\<forall>a \<in> set (agents w).
        (carrying_box a \<longrightarrow> (\<exists>bid. carried_box_id a = Some bid \<and> bid \<in> dom (boxes w))) \<and>
        agent_id a \<in> dom (agent_deliveries w))"

lemma count_stack_size_stack_at: "count_stack_size w px py = int (length (stack_at w (px, py)))"
  by (simp add: count_stack_size_def stack_at_def split: option.splits)

lemma stack_at_update:
  "stack_at (w\<lparr>box_locations := AList.update pos ids (box_locations w)\<rparr>) q =
     (if q = pos then ids else stack_at w q)"
  by (simp add: stack_at_def update_conv')

lemma agent_cell:
  assumes "agents_ok w" "i < length (agents w)"
  shows "is_valid_position w (agent_x (agents w ! i)) (agent_y (agents w ! i))"
    and "cell_at w (agent_x (agents w ! i)) (agent_y (agents w ! i)) = 3 + agent_id (agents w ! i)"
    and "0 \<le> agent_id (agents w ! i)"
  using assms by (auto simp: agents_ok_def)

lemma can_place_box_self:
  assumes "grid_ok w" "agents_ok w" "i < length (agents w)"
  shows "can_place_box w (agent_x (agents w ! i)) (agent_y (agents w ! i)) (agent_id (agents w ! i))
           = Some (count_stack_size w (agent_x (agents w ! i)) (agent_y (agents w ! i)) < 5)"
  using can_place_box_valid[OF assms(1) agent_cell(1)[OF assms(2,3)]] agent_cell(2,3)[OF assms(2,3)]
  by simp

lemma place_box_self:
  assumes "grid_ok w" "agents_ok w" "i < length (agents w)"
    and "carried_box_id (agents w ! i) = Some bid" "boxes w bid = Some b"
    and "agent_deliveries w (agent_id (agents w ! i)) = Some d"
  shows "place_box w (agent_x (agents w ! i)) (agent_y (agents w ! i)) (carried_box_id (agents w ! i))
           (agent_id (agents w ! i)) =
         Some (w\<lparr>box_locations :=
                   AList.update (agent_x (agents w ! i), agent_y (agents w ! i))
                     (stack_at w (agent_x (agents w ! i), agent_y (agents w ! i)) @ [bid])
                     (box_locations w),
                 grid := grid w,
                 boxes := (boxes w)(bid \<mapsto> b\<lparr>box_x := agent_x (agents w ! i),
                             box_y := agent_y (agents w ! i), in_stack := True,
                             stack_size := int (length (stack_at w (agent_x (agents w ! i), agent_y (agents w ! i)))) + 1\<rparr>),
                 agent_deliveries := (agent_deliveries w)(agent_id (agents w ! i) \<mapsto> d + 1)\<rparr>)"
  using agent_cell[OF assms(2,3)] assms(4-6)
  by (simp add: place_box_def grid_get_valid[OF assms(1)] stack_at_def Let_def)

lemma update_self_nth:
  "i < length (agents w) \<Longrightarrow> agents (update_self w i f) ! i = f (agents w ! i)"
  by (simp add: update_self_def)

lemma update_self_fields [simp]:
  "grid (update_self w i f) = grid w"
  "box_locations (update_self w i f) = box_locations w"
  "boxes (update_self w i f) = boxes w"
  "agent_deliveries (update_self w i f) = agent_deliveries w"
  "width (update_self w i f) = width w"
  "height (update_self w i f) = height w"
  "processed_boxes (update_self w i f) = processed_boxes w"
  "length (agents (update_self w i f)) = length (agents w)"
  by (simp_all add: update_self_def)

lemma stack_at_update_self [simp]: "stack_at (update_self w i f) pos = stack_at w pos"
  by (simp add: stack_at_def)

section \<open>What sensing changes\<close>

text \<open>
  \<open>sensed w i new w'\<close>: the warehouse \<open>w'\<close> differs from \<open>w\<close> only in that agent
  \<open>i\<close> has appended the coordinates \<open>new\<close> to its known boxes, and that every other
  agent in broadcast range has received one \<^verbatim>\<open>BOX_DISCOVERED\<close> message per
  coordinate, in order, if agent \<open>i\<close> is searching, and none otherwise.
\<close>

definition discovery_message :: "agent \<Rightarrow> int \<times> int \<Rightarrow> message" where
  "discovery_message self pos =
     \<lparr>msg_type = BOX_DISCOVERED, position = pos, from_agent = agent_id self\<rparr>"

definition sensed :: "warehouse \<Rightarrow> nat \<Rightarrow> (int \<times> int) list \<Rightarrow> warehouse \<Rightarrow> bool" where
  "sensed w i new w' \<longleftrightarrow>
     w'\<lparr>agents := agents w\<rparr> = w \<and> length (agents w') = length (agents w) \<and>
     (\<forall>j < length (agents w).
        agents w' ! j =
          (agents w ! j)
            \<lparr>known_unassigned_boxes :=
               known_unassigned_boxes (agents w ! j) @ (if j = i then new else []),
             messages :=
               messages (agents w ! j) @
                 (if state (agents w ! i) = SEARCHING \<and> in_broadcast_range (agents w ! i) (agents w ! j)
                  then map (discovery_message (agents w ! i)) new else [])\<rparr>)"

lemma sensed_refl: "sensed w i [] w"
  by (simp add: sensed_def)

lemma sensed_fields:
  assumes "sensed w i new w'"
  shows "grid w' = grid w" "box_locations w' = box_locations w" "boxes w' = boxes w"
    "width w' = width w" "height w' = height w" "agent_deliveries w' = agent_deliveries w"
    "processed_boxes w' = processed_boxes w" "length (agents w') = length (agents w)"
proof -
  from assms have e: "w'\<lparr>agents := agents w\<rparr> = w" and l: "length (agents w') = length (agents w)"
    by (simp_all add: sensed_def)
  show "grid w' = grid w" using arg_cong[OF e, of grid] by simp
  show "box_locations w' = box_locations w" using arg_cong[OF e, of box_locations] by simp
  show "boxes w' = boxes w" using arg_cong[OF e, of boxes] by simp
  show "width w' = width w" using arg_cong[OF e, of width] by simp
  show "height w' = height w" using arg_cong[OF e, of height] by simp
  show "agent_deliveries w' = agent_deliveries w" using arg_cong[OF e, of agent_deliveries] by simp
  show "processed_boxes w' = processed_boxes w" using arg_cong[OF e, of processed_boxes] by simp
  show "length (agents w') = length (agents w)" by (rule l)
qed

lemma sensed_nth:
  assumes "sensed w i new w'" "j < length (agents w)"
  shows "agents w' ! j =
          (agents w ! j)
            \<lparr>known_unassigned_boxes :=
               known_unassigned_boxes (agents w ! j) @ (if j = i then new else []),
             messages :=
               messages (agents w ! j) @
                 (if state (agents w ! i) = SEARCHING \<and> in_broadcast_range (agents w ! i) (agents w ! j)
                  then map (discovery_message (agents w ! i)) new else [])\<rparr>"
  using assms by (simp add: sensed_def)

lemma sensed_record:
  assumes "i < length (agents w)"
  shows "sensed w i [pos] (record_discovery w i pos)"
proof (cases "state (agents w ! i) = SEARCHING")
  case False
  with assms have "record_discovery w i pos
      = update_self w i (\<lambda>a. a\<lparr>known_unassigned_boxes := known_unassigned_boxes a @ [pos]\<rparr>)"
    by (simp add: record_discovery_def Let_def update_self_def)
  with assms False show ?thesis
    by (simp add: sensed_def update_self_def nth_list_update)
next
  case True
  let ?w1 = "update_self w i (\<lambda>a. a\<lparr>known_unassigned_boxes := known_unassigned_boxes a @ [pos]\<rparr>)"
  have s1: "agents ?w1 ! i = (agents w ! i)\<lparr>known_unassigned_boxes := known_unassigned_boxes (agents w ! i) @ [pos]\<rparr>"
    using assms by (simp add: update_self_def)
  have rd: "record_discovery w i pos = broadcast_message ?w1 i (discovery_message (agents w ! i) pos)"
    using True by (simp add: record_discovery_def Let_def s1 discovery_message_def)
  have r: "\<And>a. in_broadcast_range (agents ?w1 ! i) a = in_broadcast_range (agents w ! i) a"
    by (simp add: s1 in_broadcast_range_def)
  show ?thesis
    unfolding rd sensed_def broadcast_message_def Let_def r
    using assms True
    by (simp add: update_self_def nth_list_update receive_message_def in_broadcast_range_def)
qed

lemma sensed_trans:
  assumes "sensed w i n1 w1" "sensed w1 i n2 w2" "i < length (agents w)"
  shows "sensed w i (n1 @ n2) w2"
proof -
  note f1 = sensed_fields[OF assms(1)] and f2 = sensed_fields[OF assms(2)]
  have e1: "w1\<lparr>agents := agents w\<rparr> = w" and e2: "w2\<lparr>agents := agents w1\<rparr> = w1"
    using assms(1,2) by (simp_all add: sensed_def)
  have "w2\<lparr>agents := agents w\<rparr> = (w2\<lparr>agents := agents w1\<rparr>)\<lparr>agents := agents w\<rparr>" by simp
  also have "\<dots> = w" by (simp only: e2 e1)
  finally have e: "w2\<lparr>agents := agents w\<rparr> = w" .
  have si: "agents w1 ! i =
          (agents w ! i)
            \<lparr>known_unassigned_boxes := known_unassigned_boxes (agents w ! i) @ n1,
             messages := messages (agents w ! i) @
                 (if state (agents w ! i) = SEARCHING \<and> in_broadcast_range (agents w ! i) (agents w ! i)
                  then map (discovery_message (agents w ! i)) n1 else [])\<rparr>"
    using sensed_nth[OF assms(1,3)] by simp
  have s: "state (agents w1 ! i) = state (agents w ! i)"
    and d: "discovery_message (agents w1 ! i) = discovery_message (agents w ! i)"
    by (simp_all add: si discovery_message_def fun_eq_iff)
  have nth: "\<forall>j < length (agents w).
        agents w2 ! j =
          (agents w ! j)
            \<lparr>known_unassigned_boxes :=
               known_unassigned_boxes (agents w ! j) @ (if j = i then n1 @ n2 else []),
             messages :=
               messages (agents w ! j) @
                 (if state (agents w ! i) = SEARCHING \<and> in_broadcast_range (agents w ! i) (agents w ! j)
                  then map (discovery_message (agents w ! i)) (n1 @ n2) else [])\<rparr>"
  proof (intro allI impI)
    fix j assume j: "j < length (agents w)"
    then have j1: "j < length (agents w1)" by (simp add: f1)
    note a1 = sensed_nth[OF assms(1) j]
    have r: "in_broadcast_range (agents w1 ! i) (agents w1 ! j) = in_broadcast_range (agents w ! i) (agents w ! j)"
      by (simp add: in_broadcast_range_def si a1)
    show "agents w2 ! j =
          (agents w ! j)
            \<lparr>known_unassigned_boxes :=
               known_unassigned_boxes (agents w ! j) @ (if j = i then n1 @ n2 else []),
             messages :=
               messages (agents w ! j) @
                 (if state (agents w ! i) = SEARCHING \<and> in_broadcast_range (agents w ! i) (agents w ! j)
                  then map (discovery_message (agents w ! i)) (n1 @ n2) else [])\<rparr>"
      unfolding sensed_nth[OF assms(2) j1] r s d
      by (simp add: a1)
  qed
  show ?thesis unfolding sensed_def using e nth f1 f2 by simp
qed

text \<open>
  A discovery candidate is an in-bounds box cell with a stack of exactly one box that
  no other delivering agent has as its target. A cell is in sight when it lies on one
  of the four rays within sensor range and no cell before it on the ray is a wall or
  out of bounds.
\<close>

definition candidate :: "warehouse \<Rightarrow> nat \<Rightarrow> int \<times> int \<Rightarrow> bool" where
  "candidate w i pos \<longleftrightarrow>
     is_valid_position w (fst pos) (snd pos) \<and> get_cell_type w (fst pos) (snd pos) = Some Box \<and>
     count_stack_size w (fst pos) (snd pos) = 1 \<and> \<not> is_shelf_target w i pos"

definition discovers :: "warehouse \<Rightarrow> nat \<Rightarrow> (int \<times> int) list \<Rightarrow> warehouse \<Rightarrow> bool" where
  "discovers w i new w' \<longleftrightarrow>
     sensed w i new w' \<and> distinct new \<and>
     set new \<inter> set (known_unassigned_boxes (agents w ! i)) = {} \<and>
     (\<forall>pos \<in> set new. candidate w i pos)"

lemma sensed_known:
  assumes "sensed w i new w'" "i < length (agents w)"
  shows "known_unassigned_boxes (agents w' ! i) = known_unassigned_boxes (agents w ! i) @ new"
  using sensed_nth[OF assms] by simp

lemma sensed_shelf_target:
  assumes "sensed w i new w'" "i < length (agents w)"
  shows "is_shelf_target w' i pos = is_shelf_target w i pos"
proof -
  have "\<And>j. j < length (agents w) \<Longrightarrow>
      agent_id (agents w' ! j) = agent_id (agents w ! j) \<and> state (agents w' ! j) = state (agents w ! j)
      \<and> target (agents w' ! j) = target (agents w ! j)"
    using sensed_nth[OF assms(1)] by simp
  then show ?thesis
    using assms(2) sensed_fields(8)[OF assms(1)]
    by (auto simp: is_shelf_target_def list_ex_length)
qed

lemma sensed_candidate:
  assumes "sensed w i new w'" "i < length (agents w)"
  shows "candidate w' i pos = candidate w i pos"
  using sensed_fields[OF assms(1)] sensed_shelf_target[OF assms]
  by (simp add: candidate_def is_valid_position_def get_cell_type_def count_stack_size_def)

lemma discovers_refl: "discovers w i [] w"
  by (simp add: discovers_def sensed_refl)

lemma discovers_trans:
  assumes "discovers w i n1 w1" "discovers w1 i n2 w2" "i < length (agents w)"
  shows "discovers w i (n1 @ n2) w2"
proof -
  from assms have s1: "sensed w i n1 w1" and s2: "sensed w1 i n2 w2"
    by (simp_all add: discovers_def)
  have k: "known_unassigned_boxes (agents w1 ! i) = known_unassigned_boxes (agents w ! i) @ n1"
    by (rule sensed_known[OF s1 assms(3)])
  have c: "\<forall>pos \<in> set n2. candidate w i pos"
    using assms(2) sensed_candidate[OF s1 assms(3)] by (simp add: discovers_def)
  show ?thesis
    unfolding discovers_def
    using sensed_trans[OF s1 s2 assms(3)] assms(1,2) k c
    by (auto simp: discovers_def)
qed

lemma sense_cell_discovers:
  assumes "sense_cell w i nx ny = Some (stop, w')" "i < length (agents w)"
  shows "\<exists>new. discovers w i new w'"
proof (cases "w' = w")
  case True
  then show ?thesis using discovers_refl by blast
next
  case False
  with assms(1) have c: "candidate w i (nx, ny)"
      "(nx, ny) \<notin> set (known_unassigned_boxes (agents w ! i))"
      "w' = record_discovery w i (nx, ny)"
    by (auto simp: sense_cell_def candidate_def split: if_splits Option.bind_splits)
  then have "discovers w i [(nx, ny)] w'"
    using sensed_record[OF assms(2), of "(nx, ny)"] by (simp add: discovers_def)
  then show ?thesis by blast
qed

lemma discovers_length:
  "discovers w i new w' \<Longrightarrow> length (agents w') = length (agents w)"
  using sensed_fields(8)[of w i new w'] by (simp add: discovers_def)

lemma sense_ray_discovers:
  assumes "sense_ray w i d ks = Some w'" "i < length (agents w)"
  shows "\<exists>new. discovers w i new w'"
  using assms
proof (induction ks arbitrary: w)
  case Nil
  then show ?case using discovers_refl by auto
next
  case (Cons k ks)
  from Cons.prems(1) obtain stop w1 where
    c: "sense_cell w i (agent_x (agents w ! i) + fst d * k) (agent_y (agents w ! i) + snd d * k) = Some (stop, w1)"
    and r: "(if stop then Some w1 else sense_ray w1 i d ks) = Some w'"
    by (auto split: option.splits)
  from sense_cell_discovers[OF c Cons.prems(2)] obtain n1 where n1: "discovers w i n1 w1" by blast
  show ?case
  proof (cases stop)
    case True
    with r n1 show ?thesis by auto
  next
    case False
    with r have "sense_ray w1 i d ks = Some w'" by simp
    moreover have "i < length (agents w1)" using discovers_length[OF n1] Cons.prems(2) by simp
    ultimately obtain n2 where "discovers w1 i n2 w'" using Cons.IH by blast
    with n1 Cons.prems(2) show ?thesis using discovers_trans by blast
  qed
qed

lemma sense_rays_discovers:
  assumes "sense_rays w i ds = Some w'" "i < length (agents w)"
  shows "\<exists>new. discovers w i new w'"
  using assms
proof (induction ds arbitrary: w)
  case Nil
  then show ?case using discovers_refl by auto
next
  case (Cons d ds)
  from Cons.prems(1) obtain w1 where
    c: "sense_ray w i d [1 .. sensor_range (agents w ! i)] = Some w1"
    and r: "sense_rays w1 i ds = Some w'"
    by (auto split: option.splits)
  from sense_ray_discovers[OF c Cons.prems(2)] obtain n1 where n1: "discovers w i n1 w1" by blast
  have "i < length (agents w1)" using discovers_length[OF n1] Cons.prems(2) by simp
  with r obtain n2 where "discovers w1 i n2 w'" using Cons.IH by blast
  with n1 Cons.prems(2) show ?case using discovers_trans by blast
qed

lemma sense_environment_discovers:
  assumes "sense_environment w i = Some w'" "i < length (agents w)"
  shows "\<exists>new. discovers w i new w'"
  using assms sense_rays_discovers by (simp add: sense_environment_def)

definition ray_cell :: "agent \<Rightarrow> int \<times> int \<Rightarrow> int \<Rightarrow> int \<times> int" where
  "ray_cell self d k = (agent_x self + fst d * k, agent_y self + snd d * k)"

definition ray_open :: "warehouse \<Rightarrow> int \<times> int \<Rightarrow> bool" where
  "ray_open w pos \<longleftrightarrow>
     is_valid_position w (fst pos) (snd pos) \<and> get_cell_type w (fst pos) (snd pos) \<noteq> Some Wall"

definition in_sight :: "warehouse \<Rightarrow> nat \<Rightarrow> int \<times> int \<Rightarrow> bool" where
  "in_sight w i pos \<longleftrightarrow>
     (\<exists>d \<in> set directions. \<exists>k. 1 \<le> k \<and> k \<le> sensor_range (agents w ! i) \<and>
        pos = ray_cell (agents w ! i) d k \<and>
        (\<forall>k'. 1 \<le> k' \<and> k' < k \<longrightarrow> ray_open w (ray_cell (agents w ! i) d k')))"

lemma discovers_self:
  assumes "discovers w i new w'" "i < length (agents w)"
  shows "agent_x (agents w' ! i) = agent_x (agents w ! i)"
    "agent_y (agents w' ! i) = agent_y (agents w ! i)"
    "sensor_range (agents w' ! i) = sensor_range (agents w ! i)"
    "ray_cell (agents w' ! i) = ray_cell (agents w ! i)"
    "known_unassigned_boxes (agents w' ! i) = known_unassigned_boxes (agents w ! i) @ new"
proof -
  from assms(1) have s: "sensed w i new w'" by (simp add: discovers_def)
  note n = sensed_nth[OF s assms(2)]
  show "agent_x (agents w' ! i) = agent_x (agents w ! i)"
    "agent_y (agents w' ! i) = agent_y (agents w ! i)"
    "sensor_range (agents w' ! i) = sensor_range (agents w ! i)"
    "known_unassigned_boxes (agents w' ! i) = known_unassigned_boxes (agents w ! i) @ new"
    by (simp_all add: n)
  then show "ray_cell (agents w' ! i) = ray_cell (agents w ! i)"
    by (simp add: ray_cell_def fun_eq_iff)
qed

lemma discovers_queries:
  assumes "discovers w i new w'" "i < length (agents w)"
  shows "candidate w' i pos = candidate w i pos" "ray_open w' pos = ray_open w pos"
proof -
  from assms(1) have s: "sensed w i new w'" by (simp add: discovers_def)
  show "candidate w' i pos = candidate w i pos" by (rule sensed_candidate[OF s assms(2)])
  show "ray_open w' pos = ray_open w pos"
    using sensed_fields[OF s] by (simp add: ray_open_def is_valid_position_def get_cell_type_def)
qed

lemma sense_cell_records:
  assumes "sense_cell w i nx ny = Some (stop, w1)" "i < length (agents w)" "candidate w i (nx, ny)"
  shows "\<not> stop \<and> (nx, ny) \<in> set (known_unassigned_boxes (agents w1 ! i))"
proof (cases "(nx, ny) \<in> set (known_unassigned_boxes (agents w ! i))")
  case True
  with assms(1,3) show ?thesis
    by (auto simp: sense_cell_def candidate_def split: if_splits)
next
  case False
  with assms(1,3) have "\<not> stop" "w1 = record_discovery w i (nx, ny)"
    by (auto simp: sense_cell_def candidate_def split: if_splits)
  with sensed_known[OF sensed_record[OF assms(2), of "(nx, ny)"] assms(2)]
  show ?thesis by simp
qed

lemma sense_cell_open:
  assumes "sense_cell w i nx ny = Some (stop, w1)" "ray_open w (nx, ny)"
  shows "\<not> stop"
  using assms by (auto simp: sense_cell_def ray_open_def split: if_splits Option.bind_splits)

lemma sense_ray_complete:
  assumes "sense_ray w i d (pre @ k # post) = Some w'" "i < length (agents w)"
    and "\<forall>k' \<in> set pre. ray_open w (ray_cell (agents w ! i) d k')"
    and "candidate w i (ray_cell (agents w ! i) d k)"
  shows "ray_cell (agents w ! i) d k \<in> set (known_unassigned_boxes (agents w' ! i))"
  using assms
proof (induction pre arbitrary: w)
  case Nil
  from Nil.prems(1) obtain stop w1 where
    c: "sense_cell w i (agent_x (agents w ! i) + fst d * k) (agent_y (agents w ! i) + snd d * k) = Some (stop, w1)"
    and r: "(if stop then Some w1 else sense_ray w1 i d post) = Some w'"
    by (auto split: option.splits)
  from sense_cell_records[OF c Nil.prems(2)] Nil.prems(4)
  have ns: "\<not> stop" and inn: "ray_cell (agents w ! i) d k \<in> set (known_unassigned_boxes (agents w1 ! i))"
    by (simp_all add: ray_cell_def)
  from sense_cell_discovers[OF c Nil.prems(2)] obtain n1 where n1: "discovers w i n1 w1" by blast
  have i1: "i < length (agents w1)" using discovers_length[OF n1] Nil.prems(2) by simp
  from r ns have "sense_ray w1 i d post = Some w'" by simp
  from sense_ray_discovers[OF this i1] obtain n2 where n2: "discovers w1 i n2 w'" by blast
  from discovers_self(5)[OF n2 i1] inn show ?case by simp
next
  case (Cons k0 pre)
  from Cons.prems(1) obtain stop w1 where
    c: "sense_cell w i (agent_x (agents w ! i) + fst d * k0) (agent_y (agents w ! i) + snd d * k0) = Some (stop, w1)"
    and r: "(if stop then Some w1 else sense_ray w1 i d (pre @ k # post)) = Some w'"
    by (auto split: option.splits)
  from Cons.prems(3) have "ray_open w (agent_x (agents w ! i) + fst d * k0, agent_y (agents w ! i) + snd d * k0)"
    by (simp add: ray_cell_def)
  from sense_cell_open[OF c this] r have r': "sense_ray w1 i d (pre @ k # post) = Some w'" by simp
  from sense_cell_discovers[OF c Cons.prems(2)] obtain n1 where n1: "discovers w i n1 w1" by blast
  have i1: "i < length (agents w1)" using discovers_length[OF n1] Cons.prems(2) by simp
  note q = discovers_queries[OF n1 Cons.prems(2)] and s = discovers_self(4)[OF n1 Cons.prems(2)]
  have "ray_cell (agents w1 ! i) d k \<in> set (known_unassigned_boxes (agents w' ! i))"
    by (rule Cons.IH[OF r' i1]) (use Cons.prems(3,4) in \<open>simp_all add: q s\<close>)
  then show ?case by (simp add: s)
qed

lemma sense_rays_complete:
  assumes "sense_rays w i ds = Some w'" "i < length (agents w)" "d \<in> set ds"
    and "1 \<le> k" "k \<le> sensor_range (agents w ! i)"
    and "\<forall>k'. 1 \<le> k' \<and> k' < k \<longrightarrow> ray_open w (ray_cell (agents w ! i) d k')"
    and "candidate w i (ray_cell (agents w ! i) d k)"
  shows "ray_cell (agents w ! i) d k \<in> set (known_unassigned_boxes (agents w' ! i))"
  using assms
proof (induction ds arbitrary: w)
  case Nil
  then show ?case by simp
next
  case (Cons d0 ds)
  from Cons.prems(1) obtain w1 where
    c: "sense_ray w i d0 [1 .. sensor_range (agents w ! i)] = Some w1"
    and r: "sense_rays w1 i ds = Some w'"
    by (auto split: option.splits)
  from sense_ray_discovers[OF c Cons.prems(2)] obtain n1 where n1: "discovers w i n1 w1" by blast
  have i1: "i < length (agents w1)" using discovers_length[OF n1] Cons.prems(2) by simp
  from sense_rays_discovers[OF r i1] obtain n2 where n2: "discovers w1 i n2 w'" by blast
  note q = discovers_queries[OF n1 Cons.prems(2)] and s = discovers_self[OF n1 Cons.prems(2)]
  show ?case
  proof (cases "d = d0")
    case True
    have sp: "[1 .. sensor_range (agents w ! i)] = [1 .. k - 1] @ k # [k + 1 .. sensor_range (agents w ! i)]"
      using Cons.prems(4,5) by (rule upto_split3)
    have "ray_cell (agents w ! i) d k \<in> set (known_unassigned_boxes (agents w1 ! i))"
      using c Cons.prems(2,6,7) unfolding sp True
      by (intro sense_ray_complete[where pre = "[1 .. k - 1]"]) auto
    with discovers_self(5)[OF n2 i1] show ?thesis by simp
  next
    case False
    with Cons.prems(3) have "d \<in> set ds" by simp
    have "ray_cell (agents w1 ! i) d k \<in> set (known_unassigned_boxes (agents w' ! i))"
      by (rule Cons.IH[OF r i1 \<open>d \<in> set ds\<close>]) (use Cons.prems(4-7) in \<open>simp_all add: q s\<close>)
    then show ?thesis by (simp add: s)
  qed
qed

section \<open>The physical state and the bookkeeping that leaves it alone\<close>

text \<open>
  The physical part of an agent is its id, its coordinate, what it carries and its
  state; the rest (target, route, known boxes, claims, inbox, counters) is bookkeeping.
  The frame of a warehouse is its geometry, grid, stacks, box table and delivery
  counters together with the physical parts of its agents, in order.
\<close>

definition core :: "agent \<Rightarrow> int \<times> int \<times> int \<times> bool \<times> int option \<times> agent_state" where
  "core a = (agent_id a, agent_x a, agent_y a, carrying_box a, carried_box_id a, state a)"

definition frame ::
  "warehouse \<Rightarrow> int \<times> int \<times> int list list \<times> ((int \<times> int) \<times> int list) list \<times> (int \<rightharpoonup> box)
     \<times> (int \<rightharpoonup> int) \<times> (int \<times> int \<times> int \<times> bool \<times> int option \<times> agent_state) list" where
  "frame w = (width w, height w, grid w, box_locations w, boxes w, agent_deliveries w,
              map core (agents w))"

lemma frameD:
  assumes "frame w' = frame w"
  shows "width w' = width w" "height w' = height w" "grid w' = grid w"
    "box_locations w' = box_locations w" "boxes w' = boxes w"
    "agent_deliveries w' = agent_deliveries w" "map core (agents w') = map core (agents w)"
    "length (agents w') = length (agents w)"
proof -
  from assms show "width w' = width w" "height w' = height w" "grid w' = grid w"
    "box_locations w' = box_locations w" "boxes w' = boxes w"
    "agent_deliveries w' = agent_deliveries w" and m: "map core (agents w') = map core (agents w)"
    by (simp_all add: frame_def)
  from m show "length (agents w') = length (agents w)" by (rule map_eq_imp_length_eq)
qed

lemma frame_nth:
  assumes "frame w' = frame w" "j < length (agents w)"
  shows "core (agents w' ! j) = core (agents w ! j)"
proof -
  have "map core (agents w') ! j = map core (agents w) ! j" by (simp only: frameD(7)[OF assms(1)])
  with assms(2) frameD(8)[OF assms(1)] show ?thesis by simp
qed

lemma coreD:
  assumes "core a' = core a"
  shows "agent_id a' = agent_id a" "agent_x a' = agent_x a" "agent_y a' = agent_y a"
    "carrying_box a' = carrying_box a" "carried_box_id a' = carried_box_id a" "state a' = state a"
  using assms by (simp_all add: core_def)

lemma map_core_update:
  assumes "core b = core (xs ! i)"
  shows "map core (xs[i := b]) = map core xs"
proof (rule nth_equalityI)
  show "length (map core (xs[i := b])) = length (map core xs)" by simp
next
  fix j assume "j < length (map core (xs[i := b]))"
  then have "j < length xs" by simp
  then show "map core (xs[i := b]) ! j = map core xs ! j"
    using assms by (cases "j = i") simp_all
qed

lemma frame_update_self:
  assumes "\<And>a. core (f a) = core a"
  shows "frame (update_self w i f) = frame w"
  by (simp add: frame_def update_self_def map_core_update assms)

lemma core_receive_message: "core (receive_message a m) = core a"
  by (simp add: receive_message_def core_def)

lemma frame_broadcast_message: "frame (broadcast_message w i m) = frame w"
proof -
  have "map core (map (\<lambda>a. if in_broadcast_range (agents w ! i) a then receive_message a m else a) (agents w))
        = map core (agents w)"
    by (rule nth_equalityI) (simp_all add: core_receive_message)
  then show ?thesis by (simp add: frame_def broadcast_message_def Let_def)
qed

lemma core_process_message: "core (process_message a m) = core a"
  by (cases "msg_type m") (simp_all add: process_message_def Let_def core_def)

lemma core_foldl_process_message: "core (foldl process_message a ms) = core a"
  by (induction ms arbitrary: a) (simp_all add: core_process_message)

lemma frame_process_messages: "frame (process_messages w i) = frame w"
proof -
  have "\<And>a. core ((foldl process_message a (messages a))\<lparr>messages := []\<rparr>) = core a"
  proof -
    fix a
    have "core ((foldl process_message a (messages a))\<lparr>messages := []\<rparr>)
          = core (foldl process_message a (messages a))" by (simp add: core_def)
    then show "core ((foldl process_message a (messages a))\<lparr>messages := []\<rparr>) = core a"
      by (simp only: core_foldl_process_message)
  qed
  then show ?thesis unfolding process_messages_def by (rule frame_update_self)
qed

lemma frame_claim_target: "frame (claim_target w i pos) = frame w"
  unfolding claim_target_def Let_def frame_broadcast_message
  by (rule frame_update_self) (simp add: core_def)

lemma frame_release_target: "frame (release_target w i pos) = frame w"
proof -
  have "frame (update_self w i (\<lambda>a. a\<lparr>claimed_targets := (claimed_targets a)(pos := None)\<rparr>)) = frame w"
    by (rule frame_update_self) (simp add: core_def)
  then show ?thesis by (simp add: release_target_def Let_def frame_broadcast_message)
qed

lemma frame_release_current_target: "frame (release_current_target w i) = frame w"
  by (simp add: release_current_target_def frame_release_target split: option.splits)

lemma frame_sensed:
  assumes "sensed w i new w'"
  shows "frame w' = frame w"
proof -
  note f = sensed_fields[OF assms]
  have "map core (agents w') = map core (agents w)"
  proof (rule nth_equalityI)
    show "length (map core (agents w')) = length (map core (agents w))" by (simp add: f(8))
  next
    fix j assume "j < length (map core (agents w'))"
    then have j: "j < length (agents w)" by (simp add: f(8))
    show "map core (agents w') ! j = map core (agents w) ! j"
      using j f(8) by (simp add: sensed_nth[OF assms j] core_def)
  qed
  then show ?thesis by (simp add: frame_def f)
qed

lemma frame_sense_environment:
  assumes "sense_environment w i = Some w'" "i < length (agents w)"
  shows "frame w' = frame w"
proof -
  from sense_environment_discovers[OF assms] obtain new where "discovers w i new w'" by blast
  then have "sensed w i new w'" by (simp add: discovers_def)
  then show ?thesis by (rule frame_sensed)
qed

lemma frame_known_box_scan:
  "known_box_scan w i ks cs = (cs', w') \<Longrightarrow> frame w' = frame w"
proof (induction w i ks cs rule: known_box_scan.induct)
  case (1 w i candidates)
  then show ?case by simp
next
  case (2 w i bx bz rest candidates)
  let ?w1 = "(if (bx, bz) \<in> set (known_unassigned_boxes (agents w ! i))
              then update_self w i
                     (\<lambda>a. a\<lparr>known_unassigned_boxes := remove1 (bx, bz) (known_unassigned_boxes a)\<rparr>)
              else w)"
  have f1: "frame ?w1 = frame w"
    by (simp add: frame_update_self core_def)
  show ?case
  proof (cases "is_valid_position w bx bz")
    case False
    with "2.prems" "2.IH" show ?thesis by simp
  next
    case True
    show ?thesis
    proof (cases "count_stack_size w bx bz = 0 \<or> count_stack_size w bx bz > 1")
      case c: True
      from "2.prems" True c have "known_box_scan ?w1 i rest candidates = (cs', w')" by simp
      from "2.IH"(1)[OF True c this] have "frame w' = frame ?w1" .
      with f1 show ?thesis by (simp only:)
    next
      case c: False
      show ?thesis
      proof (cases "count_stack_size w bx bz = 1 \<and> \<not> is_shelf_target w i (bx, bz)
                 \<and> is_target_available (agents w ! i) (bx, bz)")
        case d: True
        from "2.prems" True c d have "known_box_scan w i rest
            (candidates @ [(manhattan (agent_x (agents w ! i)) (agent_y (agents w ! i)) bx bz, bx, bz)]) = (cs', w')"
          by simp
        from "2.IH"(2)[OF True c d this] show ?thesis .
      next
        case d: False
        from "2.prems" True c d have "known_box_scan w i rest candidates = (cs', w')"
          by (simp del: not_less)
        from "2.IH"(3)[OF True c d this] show ?thesis .
      qed
    qed
  qed
qed

lemma frame_find_nearest_known_box:
  "find_nearest_known_box w i = (r, w') \<Longrightarrow> frame w' = frame w"
  by (auto simp: find_nearest_known_box_def Let_def split: if_splits prod.splits
      dest: frame_known_box_scan)

lemma frame_route_to:
  "route_to w i pos = Some w' \<Longrightarrow> frame w' = frame w"
  by (auto simp: route_to_def frame_update_self core_def split: Option.bind_splits)

lemma frame_claim_and_route:
  assumes "claim_and_route w i pos = Some w'"
  shows "frame w' = frame w"
proof -
  have "frame (update_self w i (\<lambda>a. a\<lparr>target := Some pos\<rparr>)) = frame w"
    by (rule frame_update_self) (simp add: core_def)
  with frame_route_to[OF assms[unfolded claim_and_route_def]] show ?thesis
    by (simp add: frame_claim_target)
qed

section \<open>Invariants of the simulation\<close>

text \<open>
  \<open>delivering_ok\<close>: a delivering agent carries a box. \<open>items_in_stacks\<close> and
  \<open>items_carried\<close> count the boxes on the floor and in the agents' hands. \<open>inv\<close>
  collects the well-formedness conditions of grid, agents, stacks and tables.
\<close>

definition delivering_ok :: "warehouse \<Rightarrow> bool" where
  "delivering_ok w \<longleftrightarrow> (\<forall>a \<in> set (agents w). state a = DELIVERING \<longrightarrow> carrying_box a)"

definition items_in_stacks :: "warehouse \<Rightarrow> nat" where
  "items_in_stacks w = sum_list (map (\<lambda>(pos, ids). length ids) (box_locations w))"

definition items_carried :: "warehouse \<Rightarrow> nat" where
  "items_carried w = length (filter carrying_box (agents w))"

definition inv :: "warehouse \<Rightarrow> bool" where
  "inv w \<longleftrightarrow> grid_ok w \<and> agents_ok w \<and> stacks_ok w \<and> boxes_ok w"

lemma frame_ball:
  assumes "frame w' = frame w"
  shows "(\<forall>a \<in> set (agents w'). P (core a)) = (\<forall>a \<in> set (agents w). P (core a))"
proof -
  have "set (map core (agents w')) = set (map core (agents w))"
    by (simp only: frameD(7)[OF assms])
  then have "core ` set (agents w') = core ` set (agents w)" by simp
  then have "(\<forall>c \<in> core ` set (agents w'). P c) = (\<forall>c \<in> core ` set (agents w). P c)" by simp
  then show ?thesis by simp
qed

lemma frame_bex:
  assumes "frame w' = frame w"
  shows "(\<exists>a \<in> set (agents w'). P (core a)) = (\<exists>a \<in> set (agents w). P (core a))"
  using frame_ball[OF assms, of "\<lambda>c. \<not> P c"] by blast

lemma grid_ok_frame: "frame w' = frame w \<Longrightarrow> grid_ok w' = grid_ok w"
  by (simp add: grid_ok_def frame_def)

lemma stacks_ok_frame: "frame w' = frame w \<Longrightarrow> stacks_ok w' = stacks_ok w"
  by (simp add: stacks_ok_def frame_def)

lemma cell_at_frame: "frame w' = frame w \<Longrightarrow> cell_at w' px py = cell_at w px py"
  by (simp add: cell_at_def frame_def)

lemma is_valid_position_frame:
  "frame w' = frame w \<Longrightarrow> is_valid_position w' px py = is_valid_position w px py"
  by (simp add: is_valid_position_def frame_def)

lemma agents_ok_frame:
  assumes "frame w' = frame w"
  shows "agents_ok w' = agents_ok w"
proof -
  have d: "distinct (map agent_id (agents w')) = distinct (map agent_id (agents w))"
  proof -
    have "map agent_id (agents w') = map fst (map core (agents w'))" by (simp add: core_def)
    also have "\<dots> = map fst (map core (agents w))" by (simp only: frameD(7)[OF assms])
    also have "\<dots> = map agent_id (agents w)" by (simp add: core_def)
    finally show ?thesis by simp
  qed
  have a: "(\<forall>a \<in> set (agents w').
        is_valid_position w' (agent_x a) (agent_y a) \<and>
        cell_at w' (agent_x a) (agent_y a) = 3 + agent_id a \<and> 0 \<le> agent_id a)
      = (\<forall>a \<in> set (agents w).
        is_valid_position w (agent_x a) (agent_y a) \<and>
        cell_at w (agent_x a) (agent_y a) = 3 + agent_id a \<and> 0 \<le> agent_id a)"
    using frame_ball[OF assms, of "\<lambda>(i, px, py, r). is_valid_position w px py \<and>
        cell_at w px py = 3 + i \<and> 0 \<le> i"]
    by (simp add: core_def cell_at_frame[OF assms] is_valid_position_frame[OF assms])
  have b: "\<And>px py. (\<exists>a \<in> set (agents w'). agent_x a = px \<and> agent_y a = py)
      = (\<exists>a \<in> set (agents w). agent_x a = px \<and> agent_y a = py)"
    using frame_bex[OF assms, of "\<lambda>(i, qx, qy, r). qx = _ \<and> qy = _"]
    by (simp add: core_def)
  show ?thesis
    unfolding agents_ok_def d a b
    by (simp add: cell_at_frame[OF assms] is_valid_position_frame[OF assms])
qed

lemma boxes_ok_frame:
  assumes "frame w' = frame w"
  shows "boxes_ok w' = boxes_ok w"
proof -
  have a: "(\<forall>a \<in> set (agents w').
        (carrying_box a \<longrightarrow> (\<exists>bid. carried_box_id a = Some bid \<and> bid \<in> dom (boxes w))) \<and>
        agent_id a \<in> dom (agent_deliveries w))
      = (\<forall>a \<in> set (agents w).
        (carrying_box a \<longrightarrow> (\<exists>bid. carried_box_id a = Some bid \<and> bid \<in> dom (boxes w))) \<and>
        agent_id a \<in> dom (agent_deliveries w))"
    using frame_ball[OF assms, of "\<lambda>(i, px, py, c, cb, r).
        (c \<longrightarrow> (\<exists>bid. cb = Some bid \<and> bid \<in> dom (boxes w))) \<and> i \<in> dom (agent_deliveries w)"]
    by (simp add: core_def)
  show ?thesis
    unfolding boxes_ok_def frameD(4,5,6)[OF assms] a ..
qed

lemma inv_frame:
  assumes "frame w' = frame w"
  shows "inv w' = inv w"
  unfolding inv_def grid_ok_frame[OF assms] agents_ok_frame[OF assms] stacks_ok_frame[OF assms]
    boxes_ok_frame[OF assms] ..

lemma delivering_ok_frame:
  assumes "frame w' = frame w"
  shows "delivering_ok w' = delivering_ok w"
  unfolding delivering_ok_def
  using frame_ball[OF assms, of "\<lambda>(i, px, py, c, cb, s). s = DELIVERING \<longrightarrow> c"]
  by (simp add: core_def)

lemma items_frame:
  assumes "frame w' = frame w"
  shows "items_in_stacks w' = items_in_stacks w" "items_carried w' = items_carried w"
proof -
  show "items_in_stacks w' = items_in_stacks w"
    by (simp add: items_in_stacks_def frameD(4)[OF assms])
  have "filter carrying_box (agents w') = filter ((\<lambda>(i, px, py, c, r). c) \<circ> core) (agents w')"
    by (simp add: core_def comp_def)
  then have "length (filter carrying_box (agents w'))
      = length (filter (\<lambda>(i, px, py, c, r). c) (map core (agents w')))"
    by (simp add: filter_map)
  also have "\<dots> = length (filter (\<lambda>(i, px, py, c, r). c) (map core (agents w)))"
    by (simp only: frameD(7)[OF assms])
  also have "\<dots> = length (filter ((\<lambda>(i, px, py, c, r). c) \<circ> core) (agents w))"
    by (simp add: filter_map)
  also have "\<dots> = length (filter carrying_box (agents w))"
    by (simp add: core_def comp_def)
  finally show "items_carried w' = items_carried w" by (simp add: items_carried_def)
qed

definition place :: "agent \<Rightarrow> int \<times> int \<times> int" where
  "place a = (agent_id a, agent_x a, agent_y a)"

lemma place_ball:
  assumes "map place xs' = map place xs"
  shows "(\<forall>a \<in> set xs'. P (place a)) = (\<forall>a \<in> set xs. P (place a))"
proof -
  have "set (map place xs') = set (map place xs)" by (simp only: assms)
  then have "place ` set xs' = place ` set xs" by simp
  then have "(\<forall>c \<in> place ` set xs'. P c) = (\<forall>c \<in> place ` set xs. P c)" by simp
  then show ?thesis by simp
qed

lemma agents_ok_cong:
  assumes "width w' = width w" "height w' = height w" "grid w' = grid w"
    and m: "map place (agents w') = map place (agents w)"
  shows "agents_ok w' = agents_ok w"
proof -
  have v: "\<And>px py. is_valid_position w' px py = is_valid_position w px py"
    and c: "\<And>px py. cell_at w' px py = cell_at w px py"
    using assms(1-3) by (simp_all add: is_valid_position_def cell_at_def)
  have d: "distinct (map agent_id (agents w')) = distinct (map agent_id (agents w))"
  proof -
    have "map agent_id (agents w') = map fst (map place (agents w'))" by (simp add: place_def)
    also have "\<dots> = map fst (map place (agents w))" by (simp only: m)
    also have "\<dots> = map agent_id (agents w)" by (simp add: place_def)
    finally show ?thesis by simp
  qed
  have a: "(\<forall>a \<in> set (agents w').
        is_valid_position w (agent_x a) (agent_y a) \<and>
        cell_at w (agent_x a) (agent_y a) = 3 + agent_id a \<and> 0 \<le> agent_id a)
      = (\<forall>a \<in> set (agents w).
        is_valid_position w (agent_x a) (agent_y a) \<and>
        cell_at w (agent_x a) (agent_y a) = 3 + agent_id a \<and> 0 \<le> agent_id a)"
    using place_ball[OF m, of "\<lambda>(i, px, py). is_valid_position w px py \<and>
        cell_at w px py = 3 + i \<and> 0 \<le> i"]
    by (simp add: place_def)
  have b: "\<And>px py. (\<exists>a \<in> set (agents w'). agent_x a = px \<and> agent_y a = py)
      = (\<exists>a \<in> set (agents w). agent_x a = px \<and> agent_y a = py)"
  proof -
    fix px py
    from place_ball[OF m, of "\<lambda>(i, qx, qy). \<not> (qx = px \<and> qy = py)"]
    show "(\<exists>a \<in> set (agents w'). agent_x a = px \<and> agent_y a = py)
      = (\<exists>a \<in> set (agents w). agent_x a = px \<and> agent_y a = py)"
      by (simp add: place_def) blast
  qed
  show ?thesis unfolding agents_ok_def v c d a b ..
qed

lemma map_place_update:
  assumes "place b = place (xs ! i)"
  shows "map place (xs[i := b]) = map place xs"
proof (rule nth_equalityI)
  show "length (map place (xs[i := b])) = length (map place xs)" by simp
next
  fix j assume "j < length (map place (xs[i := b]))"
  then have "j < length xs" by simp
  then show "map place (xs[i := b]) ! j = map place xs ! j"
    using assms by (cases "j = i") simp_all
qed

lemma alist_ball:
  assumes "distinct (map fst al)"
  shows "(\<forall>(p, x) \<in> set al. Q p x) = (\<forall>p x. map_of al p = Some x \<longrightarrow> Q p x)"
  using assms by (auto simp: map_of_eq_Some_iff)

lemma stacks_ok_alt:
  "stacks_ok w \<longleftrightarrow> distinct (map fst (box_locations w)) \<and>
     (\<forall>p ids. map_of (box_locations w) p = Some ids \<longrightarrow> ids \<noteq> [] \<and> length ids \<le> 5)"
  unfolding stacks_ok_def using alist_ball[of "box_locations w" "\<lambda>p ids. ids \<noteq> [] \<and> length ids \<le> 5"]
  by blast

lemma stacks_ok_update:
  assumes "stacks_ok w" "ids \<noteq> []" "length ids \<le> 5"
  shows "stacks_ok (w\<lparr>box_locations := AList.update pos ids (box_locations w)\<rparr>)"
  using assms by (simp add: stacks_ok_alt distinct_update update_conv')

lemma stacks_ok_delete:
  assumes "stacks_ok w"
  shows "stacks_ok (w\<lparr>box_locations := AList.delete pos (box_locations w)\<rparr>)"
  using assms by (simp add: stacks_ok_alt distinct_delete delete_conv')

lemma stacks_ok_fields:
  "box_locations w' = box_locations w \<Longrightarrow> stacks_ok w' = stacks_ok w"
  by (simp add: stacks_ok_def)

lemma grid_ok_fields:
  "grid w' = grid w \<Longrightarrow> width w' = width w \<Longrightarrow> height w' = height w \<Longrightarrow> grid_ok w' = grid_ok w"
  by (simp add: grid_ok_def)

section \<open>The three physical actions\<close>

text \<open>
  \<open>dropped\<close>, \<open>picked\<close> and \<open>moved\<close> describe, field by field, the warehouse after a
  successful \<^verbatim>\<open>drop_box\<close>, \<^verbatim>\<open>pick_up_box\<close> and \<^verbatim>\<open>move\<close> (for the last two up
  to the bookkeeping of knowledge and inboxes that follows the physical change).
\<close>

definition dropped :: "warehouse \<Rightarrow> nat \<Rightarrow> warehouse \<Rightarrow> bool" where
  "dropped w i w' \<longleftrightarrow>
     (let a = agents w ! i; pos = (agent_x a, agent_y a) in
      carrying_box a \<and> length (stack_at w pos) < 5 \<and>
      (\<exists>bid b d. carried_box_id a = Some bid \<and> boxes w bid = Some b \<and>
         agent_deliveries w (agent_id a) = Some d \<and>
         width w' = width w \<and> height w' = height w \<and> grid w' = grid w \<and>
         agents w' = (agents w)[i := a\<lparr>carrying_box := False, carried_box_id := None\<rparr>] \<and>
         box_locations w' = AList.update pos (stack_at w pos @ [bid]) (box_locations w) \<and>
         boxes w' = (boxes w)(bid \<mapsto> b\<lparr>box_x := agent_x a, box_y := agent_y a, in_stack := True,
                                        stack_size := int (length (stack_at w pos)) + 1\<rparr>) \<and>
         agent_deliveries w' = (agent_deliveries w)(agent_id a \<mapsto> d + 1)))"

lemma drop_box_result:
  assumes "grid_ok w" "agents_ok w" "boxes_ok w" "i < length (agents w)"
    and "drop_box w i = Some (r, w')"
  shows "(\<not> r \<and> w' = w) \<or> (r \<and> dropped w i w')"
proof -
  let ?a = "agents w ! i"
  let ?x = "agent_x ?a" and ?y = "agent_y ?a" and ?id = "agent_id ?a"
  have cp: "can_place_box w ?x ?y ?id = Some (count_stack_size w ?x ?y < 5)"
    by (rule can_place_box_self[OF assms(1,2,4)])
  have a_in: "?a \<in> set (agents w)" using assms(4) by simp
  show ?thesis
  proof (cases "carrying_box ?a \<and> count_stack_size w ?x ?y < 5")
    case False
    have "drop_box w i = Some (False, w)"
    proof (cases "carrying_box ?a")
      case c: False
      then show ?thesis by (simp add: drop_box_def Let_def)
    next
      case c: True
      with False have "can_place_box w ?x ?y ?id = Some False" using cp by simp
      with c show ?thesis by (simp add: drop_box_def Let_def)
    qed
    with assms(5) show ?thesis by simp
  next
    case True
    with assms(3) a_in obtain bid where bid: "carried_box_id ?a = Some bid" "bid \<in> dom (boxes w)"
      unfolding boxes_ok_def by blast
    then obtain b where b: "boxes w bid = Some b" by blast
    from assms(3) a_in obtain d where d: "agent_deliveries w ?id = Some d"
      unfolding boxes_ok_def by blast
    note pb = place_box_self[OF assms(1,2,4) bid(1) b d]
    from True cp have cp': "can_place_box w ?x ?y ?id = Some True" by simp
    from True have "drop_box w i = Some (True, update_self (the (place_box w ?x ?y (carried_box_id ?a) ?id)) i
                 (\<lambda>a. a\<lparr>carrying_box := False, carried_box_id := None\<rparr>))"
      by (simp add: drop_box_def Let_def cp' pb)
    with assms(5) have r: "r"
      and w': "w' = update_self (the (place_box w ?x ?y (carried_box_id ?a) ?id)) i
                 (\<lambda>a. a\<lparr>carrying_box := False, carried_box_id := None\<rparr>)"
      by simp_all
    have l: "length (stack_at w (?x, ?y)) < 5"
      using True by (simp add: count_stack_size_stack_at)
    have "dropped w i w'"
      unfolding dropped_def Let_def
      using True l bid(1) b d assms(4)
      by (simp add: w' pb[unfolded bid(1)] update_self_def)
    with r show ?thesis by simp
  qed
qed

lemma sum_update:
  "sum_list (map (\<lambda>(p, ids). length ids) (AList.update k v al))
     + length (case map_of al k of None \<Rightarrow> [] | Some ids \<Rightarrow> ids)
   = sum_list (map (\<lambda>(p, ids). length ids) al) + length v"
  by (induction al) auto

lemma sum_delete:
  "distinct (map fst al) \<Longrightarrow>
   sum_list (map (\<lambda>(p, ids). length ids) (AList.delete k al))
     + length (case map_of al k of None \<Rightarrow> [] | Some ids \<Rightarrow> ids)
   = sum_list (map (\<lambda>(p, ids). length ids) al)"
proof (induction al)
  case Nil
  then show ?case by simp
next
  case (Cons e al)
  obtain p x where e: "e = (p, x)" by (cases e)
  show ?case
  proof (cases "p = k")
    case True
    with Cons.prems e have "k \<notin> fst ` set al" by auto
    then have "AList.delete k al = al" by simp
    with True e show ?thesis by simp
  next
    case False
    with Cons e show ?thesis by simp
  qed
qed

lemma filter_update_length:
  "i < length xs \<Longrightarrow>
   length (filter P (xs[i := y])) + (if P (xs ! i) then 1 else 0)
     = length (filter P xs) + (if P y then 1 else 0)"
proof (induction xs arbitrary: i)
  case Nil
  then show ?case by simp
next
  case (Cons x xs)
  show ?case
  proof (cases i)
    case 0
    then show ?thesis by simp
  next
    case (Suc j)
    with Cons.prems have "j < length xs" by simp
    from Cons.IH[OF this] Suc show ?thesis by simp
  qed
qed

lemma dropped_items:
  assumes "dropped w i w'" "i < length (agents w)"
  shows "items_in_stacks w' = items_in_stacks w + 1" "items_carried w' + 1 = items_carried w"
proof -
  let ?a = "agents w ! i"
  let ?pos = "(agent_x ?a, agent_y ?a)"
  from assms(1) obtain bid where
    c: "carrying_box ?a"
    and ag: "agents w' = (agents w)[i := ?a\<lparr>carrying_box := False, carried_box_id := None\<rparr>]"
    and bl: "box_locations w' = AList.update ?pos (stack_at w ?pos @ [bid]) (box_locations w)"
    unfolding dropped_def Let_def by blast
  from sum_update[of ?pos "stack_at w ?pos @ [bid]" "box_locations w"]
  show "items_in_stacks w' = items_in_stacks w + 1"
    by (simp add: items_in_stacks_def bl stack_at_def)
  from filter_update_length[OF assms(2), of carrying_box "?a\<lparr>carrying_box := False, carried_box_id := None\<rparr>"] c
  show "items_carried w' + 1 = items_carried w"
    by (simp add: items_carried_def ag)
qed

lemma boxes_ok_alt:
  assumes "distinct (map fst (box_locations w))"
  shows "boxes_ok w \<longleftrightarrow>
     (\<forall>k b. boxes w k = Some b \<longrightarrow> box_id b = k) \<and>
     (\<forall>p ids. map_of (box_locations w) p = Some ids \<longrightarrow> set ids \<subseteq> dom (boxes w)) \<and>
     (\<forall>a \<in> set (agents w).
        (carrying_box a \<longrightarrow> (\<exists>bid. carried_box_id a = Some bid \<and> bid \<in> dom (boxes w))) \<and>
        agent_id a \<in> dom (agent_deliveries w))"
  unfolding boxes_ok_def
  using alist_ball[OF assms, of "\<lambda>p ids. set ids \<subseteq> dom (boxes w)"] by simp

lemma dropped_inv:
  assumes "inv w" "i < length (agents w)" "dropped w i w'"
  shows "inv w'"
proof -
  let ?a = "agents w ! i"
  let ?pos = "(agent_x ?a, agent_y ?a)"
  let ?a' = "?a\<lparr>carrying_box := False, carried_box_id := None\<rparr>"
  from assms(1) have g: "grid_ok w" and a: "agents_ok w" and s: "stacks_ok w" and b: "boxes_ok w"
    by (simp_all add: inv_def)
  from assms(3) obtain bid b0 d where
    l: "length (stack_at w ?pos) < 5"
    and cb: "carried_box_id ?a = Some bid" and b0: "boxes w bid = Some b0"
    and d: "agent_deliveries w (agent_id ?a) = Some d"
    and f: "width w' = width w" "height w' = height w" "grid w' = grid w"
    and ag: "agents w' = (agents w)[i := ?a']"
    and bl: "box_locations w' = AList.update ?pos (stack_at w ?pos @ [bid]) (box_locations w)"
    and bx: "boxes w' = (boxes w)(bid \<mapsto> b0\<lparr>box_x := agent_x ?a, box_y := agent_y ?a, in_stack := True,
                                        stack_size := int (length (stack_at w ?pos)) + 1\<rparr>)"
    and dl: "agent_deliveries w' = (agent_deliveries w)(agent_id ?a \<mapsto> d + 1)"
    unfolding dropped_def Let_def by blast
  have g': "grid_ok w'" using g grid_ok_fields[OF f(3,1,2)] by simp
  have "map place (agents w') = map place (agents w)"
    unfolding ag by (rule map_place_update) (simp add: place_def)
  from agents_ok_cong[OF f this] a have a': "agents_ok w'" by simp
  from s have dist: "distinct (map fst (box_locations w))" by (simp add: stacks_ok_def)
  then have dist': "distinct (map fst (box_locations w'))" by (simp add: bl distinct_update)
  have s': "stacks_ok w'"
    using s l by (simp add: stacks_ok_alt bl distinct_update update_conv')
  have dom_b: "dom (boxes w') = dom (boxes w)" using b0 by (auto simp: bx)
  have dom_d: "dom (agent_deliveries w') = dom (agent_deliveries w)" using d by (auto simp: dl)
  note bo = b[unfolded boxes_ok_alt[OF dist]]
  have bo2: "\<And>p ids. map_of (box_locations w) p = Some ids \<Longrightarrow> set ids \<subseteq> dom (boxes w)"
    using bo by blast
  have b1: "\<forall>k b. boxes w' k = Some b \<longrightarrow> box_id b = k"
    using bo b0 by (auto simp: bx)
  have b2: "\<forall>p ids. map_of (box_locations w') p = Some ids \<longrightarrow> set ids \<subseteq> dom (boxes w')"
  proof (intro allI impI)
    fix p ids assume m: "map_of (box_locations w') p = Some ids"
    show "set ids \<subseteq> dom (boxes w')"
    proof (cases "p = ?pos")
      case True
      with m have "ids = stack_at w ?pos @ [bid]"
        unfolding bl by (simp only: update_conv') simp
      moreover have "set (stack_at w ?pos) \<subseteq> dom (boxes w)"
      proof (cases "map_of (box_locations w) ?pos")
        case None
        then show ?thesis by (simp add: stack_at_def)
      next
        case (Some old)
        then have "set old \<subseteq> dom (boxes w)" by (rule bo2)
        with Some show ?thesis by (simp add: stack_at_def)
      qed
      ultimately show ?thesis using b0 by (auto simp: dom_b)
    next
      case False
      with m have "map_of (box_locations w) p = Some ids"
        unfolding bl by (simp only: update_conv') simp
      from bo2[OF this] show ?thesis by (simp add: dom_b)
    qed
  qed
  have b3: "\<forall>a \<in> set (agents w').
        (carrying_box a \<longrightarrow> (\<exists>bid. carried_box_id a = Some bid \<and> bid \<in> dom (boxes w'))) \<and>
        agent_id a \<in> dom (agent_deliveries w')"
  proof
    fix x assume "x \<in> set (agents w')"
    then have "x = ?a' \<or> x \<in> set (agents w)"
      unfolding ag using set_update_subset_insert[of "agents w" i ?a'] by auto
    moreover have "?a \<in> set (agents w)" using assms(2) by simp
    ultimately show "(carrying_box x \<longrightarrow> (\<exists>bid. carried_box_id x = Some bid \<and> bid \<in> dom (boxes w'))) \<and>
        agent_id x \<in> dom (agent_deliveries w')"
      using bo unfolding dom_b dom_d by auto
  qed
  have "boxes_ok w'" unfolding boxes_ok_alt[OF dist'] using b1 b2 b3 by blast
  with g' a' s' show ?thesis by (simp add: inv_def)
qed

lemma grid_set_ok:
  assumes "grid_ok w" "is_valid_position w px py"
    and "grid w' = (grid w)[nat px := (grid w ! nat px)[nat py := v]]"
    and "width w' = width w" "height w' = height w"
  shows "grid_ok w'"
    and "\<And>qx qy. is_valid_position w qx qy \<Longrightarrow>
           cell_at w' qx qy = (if (qx, qy) = (px, py) then v else cell_at w qx qy)"
proof -
  from assms(1,2) have x: "nat px < length (grid w)"
    by (auto simp: grid_ok_def is_valid_position_def)
  then have "grid w ! nat px \<in> set (grid w)" by simp
  with assms(1,2) have y: "nat py < length (grid w ! nat px)"
    by (auto simp: grid_ok_def is_valid_position_def)
  show "grid_ok w'"
    using assms(1) x
    unfolding grid_ok_def assms(3,4,5)
    by (auto dest!: set_update_subset_insert[THEN subsetD])
  fix qx qy assume q: "is_valid_position w qx qy"
  then have qx: "nat qx < length (grid w)" using assms(1)
    by (auto simp: grid_ok_def is_valid_position_def)
  then have "grid w ! nat qx \<in> set (grid w)" by simp
  with assms(1) q have qy: "nat qy < length (grid w ! nat qx)"
    by (auto simp: grid_ok_def is_valid_position_def)
  have e: "(nat qx = nat px) = (qx = px)" "(nat qy = nat py) = (qy = py)"
    using q assms(2) by (auto simp: is_valid_position_def)
  show "cell_at w' qx qy = (if (qx, qy) = (px, py) then v else cell_at w qx qy)"
    using x y qx qy e
    by (auto simp: cell_at_def assms(3) nth_list_update)
qed

definition picked :: "warehouse \<Rightarrow> nat \<Rightarrow> int \<times> int \<Rightarrow> warehouse \<Rightarrow> bool" where
  "picked w i pos w' \<longleftrightarrow>
     (let a = agents w ! i in
      \<not> carrying_box a \<and>
      (\<exists>bid b. map_of (box_locations w) pos = Some [bid] \<and> boxes w bid = Some b \<and>
         width w' = width w \<and> height w' = height w \<and>
         grid w' = (if cell_at w (fst pos) (snd pos) = 2
                    then (grid w)[nat (fst pos) := (grid w ! nat (fst pos))[nat (snd pos) := 0]]
                    else grid w) \<and>
         agents w' = (agents w)[i := a\<lparr>carrying_box := True, carried_box_id := Some (box_id b)\<rparr>] \<and>
         box_locations w' = AList.delete pos (box_locations w) \<and>
         boxes w' = (boxes w)(bid \<mapsto> b\<lparr>in_stack := False, stack_size := 1\<rparr>) \<and>
         agent_deliveries w' = agent_deliveries w))"

lemma length_one: "length xs = Suc 0 \<Longrightarrow> \<exists>x. xs = [x]"
  by (cases xs) auto

lemma pick_up_box_result:
  assumes "grid_ok w" "i < length (agents w)" "is_valid_position w px py"
    and "pick_up_box w i px py = Some (r, w')"
  shows "(\<not> r \<and> w' = w) \<or> (r \<and> (\<exists>w2. picked w i (px, py) w2 \<and> frame w' = frame w2))"
proof (cases "carrying_box (agents w ! i)")
  case True
  with assms(4) show ?thesis by (simp add: pick_up_box_def)
next
  case nc: False
  from assms(4) nc obtain found where g: "get_box_at w px py = Some found"
    by (auto simp: pick_up_box_def split: Option.bind_splits)
  show ?thesis
  proof (cases "found \<noteq> None \<and> can_pick_up_box w px py")
    case False
    with assms(4) nc g show ?thesis
      by (auto simp: pick_up_box_def split: option.splits)
  next
    case True
    then obtain b where b: "found = Some b" and c: "count_stack_size w px py = 1"
      by (auto simp: can_pick_up_box_def)
    from c obtain ids where ids: "map_of (box_locations w) (px, py) = Some ids" "length ids = Suc 0"
      by (auto simp: count_stack_size_def split: option.splits)
    from length_one[OF ids(2)] obtain bid where bid: "ids = [bid]" by blast
    from g b ids(1) bid have bb: "boxes w bid = Some b"
      by (auto simp: get_box_at_def split: option.splits)
    let ?a' = "(agents w ! i)\<lparr>carrying_box := True, carried_box_id := Some (box_id b)\<rparr>"
    let ?w1 = "update_self w i (\<lambda>a. a\<lparr>carrying_box := True, carried_box_id := Some (box_id b)\<rparr>)"
    let ?g = "if cell_at w px py = 2
                    then (grid w)[nat px := (grid w ! nat px)[nat py := 0]]
                    else grid w"
    let ?w2 = "?w1\<lparr>box_locations := AList.delete (px, py) (box_locations w),
                 processed_boxes := insert bid (processed_boxes w),
                 boxes := (boxes w)(bid \<mapsto> b\<lparr>in_stack := False, stack_size := 1\<rparr>),
                 grid := ?g\<rparr>"
    have rm: "remove_box_from_grid ?w1 px py = Some ?w2"
      using ids(1) bid bb
      by (simp add: remove_box_from_grid_def Let_def grid_get_valid[OF assms(1,3)]
          grid_set_valid[OF assms(1,3)] delete_update_same)
    have p: "picked w i (px, py) ?w2"
      unfolding picked_def Let_def using nc ids(1) bid bb
      by (simp add: update_self_def)
    let ?w3 = "(if (px, py) \<in> set (known_unassigned_boxes (agents ?w2 ! i))
                        then update_self ?w2 i
                               (\<lambda>a. a\<lparr>known_unassigned_boxes := remove1 (px, py) (known_unassigned_boxes a)\<rparr>)
                        else ?w2)"
    have f3: "frame ?w3 = frame ?w2"
      by (simp add: frame_update_self core_def)
    from assms(4) nc g b c rm
    have "r" and w': "w' = broadcast_message ?w3 i
                      \<lparr>msg_type = BOX_PICKED, position = (px, py),
                       from_agent = agent_id (agents ?w3 ! i)\<rparr>"
      by (simp_all add: pick_up_box_def can_pick_up_box_def Let_def)
    have "frame w' = frame ?w2" unfolding w' frame_broadcast_message by (rule f3)
    with p \<open>r\<close> show ?thesis by blast
  qed
qed

lemma agents_ok_clear:
  assumes "grid_ok w" "agents_ok w" "is_valid_position w px py" "cell_at w px py < 3" "v < 3"
  shows "agents_ok (w\<lparr>grid := (grid w)[nat px := (grid w ! nat px)[nat py := v]]\<rparr>)"
proof -
  let ?w' = "w\<lparr>grid := (grid w)[nat px := (grid w ! nat px)[nat py := v]]\<rparr>"
  have c: "\<And>qx qy. is_valid_position w qx qy \<Longrightarrow>
           cell_at ?w' qx qy = (if (qx, qy) = (px, py) then v else cell_at w qx qy)"
    by (rule grid_set_ok(2)[OF assms(1,3)]) simp_all
  have v: "\<And>qx qy. is_valid_position ?w' qx qy = is_valid_position w qx qy"
    by (simp add: is_valid_position_def)
  show ?thesis
    unfolding agents_ok_def v
  proof (intro conjI ballI allI impI)
    show "distinct (map agent_id (agents ?w'))" using assms(2) by (simp add: agents_ok_def)
  next
    fix a assume "a \<in> set (agents ?w')"
    then have a: "a \<in> set (agents w)" by simp
    with assms(2) have va: "is_valid_position w (agent_x a) (agent_y a)"
      and ca: "cell_at w (agent_x a) (agent_y a) = 3 + agent_id a" and ia: "0 \<le> agent_id a"
      by (auto simp: agents_ok_def)
    show "is_valid_position w (agent_x a) (agent_y a)" by (rule va)
    show "0 \<le> agent_id a" by (rule ia)
    from ca ia assms(4) have "(agent_x a, agent_y a) \<noteq> (px, py)" by auto
    with c[OF va] ca show "cell_at ?w' (agent_x a) (agent_y a) = 3 + agent_id a" by auto
  next
    fix qx qy assume h: "is_valid_position w qx qy \<and> 3 \<le> cell_at ?w' qx qy"
    with c[of qx qy] assms(5) have "3 \<le> cell_at w qx qy" by (auto split: if_splits)
    with h assms(2) show "\<exists>a\<in>set (agents ?w'). agent_x a = qx \<and> agent_y a = qy"
      by (auto simp: agents_ok_def)
  qed
qed

lemma picked_inv:
  assumes "inv w" "i < length (agents w)" "is_valid_position w px py" "picked w i (px, py) w'"
  shows "inv w'"
proof -
  let ?a = "agents w ! i"
  from assms(1) have g: "grid_ok w" and a: "agents_ok w" and s: "stacks_ok w" and b: "boxes_ok w"
    by (simp_all add: inv_def)
  from assms(4) obtain bid b0 where
    m: "map_of (box_locations w) (px, py) = Some [bid]" and b0: "boxes w bid = Some b0"
    and f: "width w' = width w" "height w' = height w"
    and gr: "grid w' = (if cell_at w px py = 2
                    then (grid w)[nat px := (grid w ! nat px)[nat py := 0]] else grid w)"
    and ag: "agents w' = (agents w)[i := ?a\<lparr>carrying_box := True, carried_box_id := Some (box_id b0)\<rparr>]"
    and bl: "box_locations w' = AList.delete (px, py) (box_locations w)"
    and bx: "boxes w' = (boxes w)(bid \<mapsto> b0\<lparr>in_stack := False, stack_size := 1\<rparr>)"
    and dl: "agent_deliveries w' = agent_deliveries w"
    unfolding picked_def Let_def by auto
  let ?a' = "?a\<lparr>carrying_box := True, carried_box_id := Some (box_id b0)\<rparr>"
  let ?wm = "w\<lparr>grid := grid w'\<rparr>"
  have gm: "grid_ok ?wm \<and> agents_ok ?wm"
  proof (cases "cell_at w px py = 2")
    case True
    then have e: "grid w' = (grid w)[nat px := (grid w ! nat px)[nat py := 0]]" by (simp add: gr)
    have "grid_ok ?wm" by (rule grid_set_ok(1)[OF g assms(3), of _ 0]) (simp_all add: e)
    moreover have "agents_ok ?wm"
      unfolding e using agents_ok_clear[OF g a assms(3), of 0] True by simp
    ultimately show ?thesis by simp
  next
    case False
    then have "?wm = w" by (simp add: gr)
    with g a show ?thesis by simp
  qed
  have g': "grid_ok w'" using gm grid_ok_fields[of w' ?wm] f by simp
  have "map place (agents w') = map place (agents ?wm)"
    unfolding ag by (simp add: map_place_update place_def)
  from agents_ok_cong[of w' ?wm, OF _ _ _ this] gm f have a': "agents_ok w'" by simp
  from s have dist: "distinct (map fst (box_locations w))" by (simp add: stacks_ok_def)
  then have dist': "distinct (map fst (box_locations w'))" by (simp add: bl distinct_delete)
  have s': "stacks_ok w'"
    using s by (simp add: stacks_ok_alt bl distinct_delete delete_conv')
  have dom_b: "dom (boxes w') = dom (boxes w)" using b0 by (auto simp: bx)
  note bo = b[unfolded boxes_ok_alt[OF dist]]
  have bo2: "\<And>p ids. map_of (box_locations w) p = Some ids \<Longrightarrow> set ids \<subseteq> dom (boxes w)"
    using bo by blast
  have bid: "box_id b0 = bid" using bo b0 by blast
  have b1: "\<forall>k b. boxes w' k = Some b \<longrightarrow> box_id b = k"
    using bo b0 by (auto simp: bx)
  have b2: "\<forall>p ids. map_of (box_locations w') p = Some ids \<longrightarrow> set ids \<subseteq> dom (boxes w')"
  proof (intro allI impI)
    fix p ids assume "map_of (box_locations w') p = Some ids"
    then have "map_of (box_locations w) p = Some ids"
      unfolding bl by (simp only: delete_conv') (simp split: if_splits)
    from bo2[OF this] show "set ids \<subseteq> dom (boxes w')" by (simp add: dom_b)
  qed
  have b3: "\<forall>a \<in> set (agents w').
        (carrying_box a \<longrightarrow> (\<exists>bid. carried_box_id a = Some bid \<and> bid \<in> dom (boxes w'))) \<and>
        agent_id a \<in> dom (agent_deliveries w')"
  proof
    fix x assume "x \<in> set (agents w')"
    then have "x = ?a' \<or> x \<in> set (agents w)"
      unfolding ag using set_update_subset_insert[of "agents w" i ?a'] by auto
    moreover have "?a \<in> set (agents w)" using assms(2) by simp
    ultimately show "(carrying_box x \<longrightarrow> (\<exists>bid. carried_box_id x = Some bid \<and> bid \<in> dom (boxes w'))) \<and>
        agent_id x \<in> dom (agent_deliveries w')"
      using bo b0 bid unfolding dom_b dl by auto
  qed
  have "boxes_ok w'" unfolding boxes_ok_alt[OF dist'] using b1 b2 b3 by blast
  with g' a' s' show ?thesis by (simp add: inv_def)
qed

lemma picked_items:
  assumes "stacks_ok w" "i < length (agents w)" "picked w i pos w'"
  shows "items_in_stacks w' + 1 = items_in_stacks w" "items_carried w' = items_carried w + 1"
proof -
  let ?a = "agents w ! i"
  from assms(3) obtain bid and b0 :: box where
    nc: "\<not> carrying_box ?a"
    and m: "map_of (box_locations w) pos = Some [bid]"
    and ag: "agents w' = (agents w)[i := ?a\<lparr>carrying_box := True, carried_box_id := Some (box_id b0)\<rparr>]"
    and bl: "box_locations w' = AList.delete pos (box_locations w)"
    unfolding picked_def Let_def by auto
  from assms(1) have dist: "distinct (map fst (box_locations w))" by (simp add: stacks_ok_def)
  from sum_delete[OF dist, of pos] m
  show "items_in_stacks w' + 1 = items_in_stacks w"
    by (simp add: items_in_stacks_def bl)
  from filter_update_length[OF assms(2), of carrying_box "?a\<lparr>carrying_box := True, carried_box_id := Some (box_id b0)\<rparr>"] nc
  show "items_carried w' = items_carried w + 1"
    by (simp add: items_carried_def ag)
qed

definition moved :: "warehouse \<Rightarrow> nat \<Rightarrow> int \<times> int \<Rightarrow> warehouse \<Rightarrow> bool" where
  "moved w i dest w' \<longleftrightarrow>
     (let a = agents w ! i;
          g1 = (grid w)[nat (agent_x a) := (grid w ! nat (agent_x a))
                   [nat (agent_y a) := (if count_stack_size w (agent_x a) (agent_y a) > 0 then 2 else 0)]]
      in is_valid_position w (fst dest) (snd dest) \<and>
         (cell_at w (fst dest) (snd dest) = 0 \<or> cell_at w (fst dest) (snd dest) = 2) \<and>
         width w' = width w \<and> height w' = height w \<and>
         grid w' = g1[nat (fst dest) := (g1 ! nat (fst dest))[nat (snd dest) := 3 + agent_id a]] \<and>
         agents w' = (agents w)[i := a\<lparr>agent_x := fst dest, agent_y := snd dest,
                                        movements := movements a + 1\<rparr>] \<and>
         box_locations w' = box_locations w \<and> boxes w' = boxes w \<and>
         agent_deliveries w' = agent_deliveries w)"

lemma can_move_to_valid:
  assumes "grid_ok w"
  shows "can_move_to w px py aid =
     Some (is_valid_position w px py \<and> (cell_at w px py = 0 \<or> cell_at w px py = 2))"
  using assms by (simp add: can_move_to_def grid_get_valid)

lemma move_result:
  assumes "grid_ok w" "agents_ok w" "i < length (agents w)"
    and "move w i d = Some (r, w')"
  shows "(\<not> r \<and> w' = w) \<or>
         (r \<and> (\<exists>w2. moved w i (agent_x (agents w ! i) + fst d, agent_y (agents w ! i) + snd d) w2 \<and>
                     frame w' = frame w2))"
proof -
  let ?a = "agents w ! i"
  let ?x = "agent_x ?a" and ?y = "agent_y ?a" and ?id = "agent_id ?a"
  let ?nx = "?x + fst d" and ?ny = "?y + snd d"
  note ac = agent_cell[OF assms(2,3)]
  show ?thesis
  proof (cases "is_valid_position w ?nx ?ny \<and> (cell_at w ?nx ?ny = 0 \<or> cell_at w ?nx ?ny = 2)")
    case False
    then have "can_move_to w ?nx ?ny ?id = Some False"
      using can_move_to_valid[OF assms(1)] by simp
    with assms(4) show ?thesis by (simp add: move_def Let_def)
  next
    case True
    then have cm: "can_move_to w ?nx ?ny ?id = Some True"
      using can_move_to_valid[OF assms(1)] by simp
    let ?v = "if count_stack_size w ?x ?y > 0 then 2 else (0::int)"
    let ?g1 = "(grid w)[nat ?x := (grid w ! nat ?x)[nat ?y := ?v]]"
    let ?wa = "w\<lparr>grid := ?g1\<rparr>"
    have ga: "grid_ok ?wa" by (rule grid_set_ok(1)[OF assms(1) ac(1), of _ ?v]) simp_all
    have va: "is_valid_position ?wa ?nx ?ny" using True by (simp add: is_valid_position_def)
    let ?g2 = "?g1[nat ?nx := (?g1 ! nat ?nx)[nat ?ny := 3 + ?id]]"
    have s1: "(if 3 \<le> cell_at w ?x ?y
                 then (if count_stack_size w ?x ?y > 0
                       then grid_set (grid w) ?x ?y 2 else grid_set (grid w) ?x ?y 0)
                 else Some (grid w)) = Some ?g1"
      using ac by (simp add: grid_set_valid[OF assms(1) ac(1)])
    have s2: "grid_set ?g1 ?nx ?ny (3 + ?id) = Some ?g2"
      using grid_set_valid[OF ga va, of "3 + ?id"] by simp
    let ?w1 = "update_self (w\<lparr>grid := ?g2\<rparr>) i
                     (\<lambda>a. a\<lparr>agent_x := ?nx, agent_y := ?ny, movements := movements a + 1\<rparr>)"
    from assms(4) have "r" and se: "sense_environment ?w1 i = Some w'"
      by (auto simp: move_def Let_def cm grid_get_valid[OF assms(1) ac(1)] s1 s2
          split: Option.bind_splits)
    have "i < length (agents ?w1)" using assms(3) by simp
    from frame_sense_environment[OF se this] have f: "frame w' = frame ?w1" .
    have "moved w i (?nx, ?ny) ?w1"
      unfolding moved_def Let_def using True assms(3)
      by (simp add: update_self_def)
    with f \<open>r\<close> show ?thesis by blast
  qed
qed

lemma map_update_same:
  assumes "f b = f (xs ! i)"
  shows "map f (xs[i := b]) = map f xs"
proof (rule nth_equalityI)
  show "length (map f (xs[i := b])) = length (map f xs)" by simp
next
  fix j assume "j < length (map f (xs[i := b]))"
  then have "j < length xs" by simp
  then show "map f (xs[i := b]) ! j = map f xs ! j"
    using assms by (cases "j = i") simp_all
qed

lemma moved_inv:
  assumes "inv w" "i < length (agents w)" "moved w i (nx, ny) w'"
  shows "inv w'"
proof -
  let ?a = "agents w ! i"
  let ?x = "agent_x ?a" and ?y = "agent_y ?a" and ?id = "agent_id ?a"
  from assms(1) have g: "grid_ok w" and a: "agents_ok w" and s: "stacks_ok w" and b: "boxes_ok w"
    by (simp_all add: inv_def)
  note ac = agent_cell[OF a assms(2)]
  let ?v = "if count_stack_size w ?x ?y > 0 then 2 else (0::int)"
  let ?g1 = "(grid w)[nat ?x := (grid w ! nat ?x)[nat ?y := ?v]]"
  let ?a' = "?a\<lparr>agent_x := nx, agent_y := ny, movements := movements ?a + 1\<rparr>"
  from assms(3) have
    vn: "is_valid_position w nx ny" and cn: "cell_at w nx ny = 0 \<or> cell_at w nx ny = 2"
    and f: "width w' = width w" "height w' = height w"
    and gr: "grid w' = ?g1[nat nx := (?g1 ! nat nx)[nat ny := 3 + ?id]]"
    and ag: "agents w' = (agents w)[i := ?a']"
    and bl: "box_locations w' = box_locations w" and bx: "boxes w' = boxes w"
    and dl: "agent_deliveries w' = agent_deliveries w"
    unfolding moved_def Let_def by simp_all
  let ?wa = "w\<lparr>grid := ?g1\<rparr>"
  have ga: "grid_ok ?wa" by (rule grid_set_ok(1)[OF g ac(1), of _ ?v]) simp_all
  have ca: "\<And>qx qy. is_valid_position w qx qy \<Longrightarrow>
           cell_at ?wa qx qy = (if (qx, qy) = (?x, ?y) then ?v else cell_at w qx qy)"
    by (rule grid_set_ok(2)[OF g ac(1)]) simp_all
  have va: "\<And>qx qy. is_valid_position ?wa qx qy = is_valid_position w qx qy"
    by (simp add: is_valid_position_def)
  have v': "\<And>qx qy. is_valid_position w' qx qy = is_valid_position w qx qy"
    by (simp add: is_valid_position_def f)
  have g': "grid_ok w'"
    by (rule grid_set_ok(1)[OF ga, of nx ny _ "3 + ?id"]) (simp_all add: va vn gr f)
  have cb: "\<And>qx qy. is_valid_position w qx qy \<Longrightarrow>
           cell_at w' qx qy = (if (qx, qy) = (nx, ny) then 3 + ?id else cell_at ?wa qx qy)"
    by (rule grid_set_ok(2)[OF ga, of nx ny _ "3 + ?id"]) (simp_all add: va vn gr f)
  have ne: "(nx, ny) \<noteq> (?x, ?y)" using cn ac by auto
  have c': "\<And>qx qy. is_valid_position w qx qy \<Longrightarrow>
           cell_at w' qx qy = (if (qx, qy) = (nx, ny) then 3 + ?id
                               else if (qx, qy) = (?x, ?y) then ?v else cell_at w qx qy)"
  proof -
    fix qx qy assume q: "is_valid_position w qx qy"
    show "cell_at w' qx qy = (if (qx, qy) = (nx, ny) then 3 + ?id
                               else if (qx, qy) = (?x, ?y) then ?v else cell_at w qx qy)"
      unfolding cb[OF q] ca[OF q] ..
  qed
  have ids: "map agent_id (agents w') = map agent_id (agents w)"
    unfolding ag by (rule map_update_same) simp
  have dist: "distinct (map agent_id (agents w))" using a by (simp add: agents_ok_def)
  have other: "\<And>j. j < length (agents w) \<Longrightarrow> j \<noteq> i \<Longrightarrow>
         (agent_x (agents w ! j), agent_y (agents w ! j)) \<noteq> (?x, ?y) \<and>
         (agent_x (agents w ! j), agent_y (agents w ! j)) \<noteq> (nx, ny)"
  proof -
    fix j assume j: "j < length (agents w)" "j \<noteq> i"
    note aj = agent_cell[OF a j(1)]
    have "agent_id (agents w ! j) \<noteq> ?id"
      using dist j assms(2) by (simp add: distinct_conv_nth)
    with aj(2) ac(2) have "(agent_x (agents w ! j), agent_y (agents w ! j)) \<noteq> (?x, ?y)" by auto
    moreover from aj(2,3) cn have "(agent_x (agents w ! j), agent_y (agents w ! j)) \<noteq> (nx, ny)" by auto
    ultimately show "(agent_x (agents w ! j), agent_y (agents w ! j)) \<noteq> (?x, ?y) \<and>
         (agent_x (agents w ! j), agent_y (agents w ! j)) \<noteq> (nx, ny)" by simp
  qed
  have a': "agents_ok w'"
    unfolding agents_ok_def v'
  proof (intro conjI ballI allI impI)
    show "distinct (map agent_id (agents w'))" using dist ids by simp
  next
    fix x assume "x \<in> set (agents w')"
    then obtain j where j: "j < length (agents w)" "x = agents w' ! j"
      by (auto simp: in_set_conv_nth ag)
    have "is_valid_position w (agent_x x) (agent_y x) \<and>
        cell_at w' (agent_x x) (agent_y x) = 3 + agent_id x \<and> 0 \<le> agent_id x"
    proof (cases "j = i")
      case True
      with j assms(2) have "x = ?a'" by (simp add: ag)
      with vn ac(3) c'[OF vn] show ?thesis by simp
    next
      case False
      with j have x: "x = agents w ! j" by (simp add: ag)
      note aj = agent_cell[OF a j(1)]
      from other[OF j(1) False] c'[OF aj(1)] aj show ?thesis by (auto simp: x)
    qed
    then show "is_valid_position w (agent_x x) (agent_y x)"
      "cell_at w' (agent_x x) (agent_y x) = 3 + agent_id x" "0 \<le> agent_id x" by simp_all
  next
    fix qx qy assume h: "is_valid_position w qx qy \<and> 3 \<le> cell_at w' qx qy"
    show "\<exists>x\<in>set (agents w'). agent_x x = qx \<and> agent_y x = qy"
    proof (cases "(qx, qy) = (nx, ny)")
      case True
      have "?a' \<in> set (agents w')" unfolding ag using assms(2) by (simp add: set_update_memI)
      moreover have "agent_x ?a' = qx \<and> agent_y ?a' = qy" using True by simp
      ultimately show ?thesis by (rule bexI[rotated])
    next
      case False
      with h c'[of qx qy] have q: "(qx, qy) \<noteq> (?x, ?y)" "3 \<le> cell_at w qx qy"
        by (auto split: if_splits)
      with h a obtain y where y: "y \<in> set (agents w)" "agent_x y = qx" "agent_y y = qy"
        unfolding agents_ok_def by blast
      then obtain j where j: "j < length (agents w)" "y = agents w ! j"
        by (auto simp: in_set_conv_nth)
      with y q(1) have "j \<noteq> i" by auto
      with j have "agents w' ! j = y" by (simp add: ag)
      with j(1) have "y \<in> set (agents w')" by (metis ag length_list_update nth_mem)
      with y show ?thesis by blast
    qed
  qed
  have s': "stacks_ok w'" using s by (simp add: stacks_ok_def bl)
  have b3: "\<forall>x \<in> set (agents w').
        (carrying_box x \<longrightarrow> (\<exists>bid. carried_box_id x = Some bid \<and> bid \<in> dom (boxes w))) \<and>
        agent_id x \<in> dom (agent_deliveries w)"
  proof
    fix x assume "x \<in> set (agents w')"
    then have "x = ?a' \<or> x \<in> set (agents w)"
      unfolding ag using set_update_subset_insert[of "agents w" i ?a'] by auto
    moreover have "?a \<in> set (agents w)" using assms(2) by simp
    ultimately show "(carrying_box x \<longrightarrow> (\<exists>bid. carried_box_id x = Some bid \<and> bid \<in> dom (boxes w))) \<and>
        agent_id x \<in> dom (agent_deliveries w)"
      using b unfolding boxes_ok_def by auto
  qed
  have "boxes_ok w'" using b b3 unfolding boxes_ok_def bl bx dl by blast
  with g' a' s' show ?thesis by (simp add: inv_def)
qed

section \<open>What one turn may change\<close>

text \<open>
  The part of an agent that the grid and the stacks depend on: identifier, coordinates and
  what it carries. Its state machine (state, target, route, knowledge, inbox) is left out.
\<close>

definition phys :: "agent \<Rightarrow> int \<times> int \<times> int \<times> bool \<times> int option" where
  "phys a = (agent_id a, agent_x a, agent_y a, carrying_box a, carried_box_id a)"

text \<open>The physical part of a warehouse: everything but the agents' state machines.\<close>

definition pframe ::
  "warehouse \<Rightarrow> int \<times> int \<times> int list list \<times> ((int \<times> int) \<times> int list) list \<times> (int \<rightharpoonup> box)
     \<times> (int \<rightharpoonup> int) \<times> (int \<times> int \<times> int \<times> bool \<times> int option) list" where
  "pframe w = (width w, height w, grid w, box_locations w, boxes w, agent_deliveries w,
               map phys (agents w))"

lemma pframeD:
  assumes "pframe w' = pframe w"
  shows "width w' = width w" "height w' = height w" "grid w' = grid w"
    "box_locations w' = box_locations w" "boxes w' = boxes w"
    "agent_deliveries w' = agent_deliveries w" "map phys (agents w') = map phys (agents w)"
    "length (agents w') = length (agents w)"
proof -
  from assms show "width w' = width w" "height w' = height w" "grid w' = grid w"
    "box_locations w' = box_locations w" "boxes w' = boxes w"
    "agent_deliveries w' = agent_deliveries w" and m: "map phys (agents w') = map phys (agents w)"
    by (simp_all add: pframe_def)
  from m show "length (agents w') = length (agents w)" by (rule map_eq_imp_length_eq)
qed

lemma pframe_nth:
  assumes "pframe w' = pframe w" "j < length (agents w)"
  shows "phys (agents w' ! j) = phys (agents w ! j)"
proof -
  have "map phys (agents w') ! j = map phys (agents w) ! j" by (simp only: pframeD(7)[OF assms(1)])
  with assms(2) pframeD(8)[OF assms(1)] show ?thesis by simp
qed

lemma frame_pframe:
  assumes "frame w' = frame w"
  shows "pframe w' = pframe w"
proof -
  have p: "phys = (\<lambda>(i, px, py, c, cb, s). (i, px, py, c, cb)) \<circ> core"
    by (simp add: fun_eq_iff phys_def core_def)
  have "map phys (agents w') = map (\<lambda>(i, px, py, c, cb, s). (i, px, py, c, cb)) (map core (agents w'))"
    by (simp add: p)
  also have "\<dots> = map (\<lambda>(i, px, py, c, cb, s). (i, px, py, c, cb)) (map core (agents w))"
    by (simp only: frameD(7)[OF assms])
  also have "\<dots> = map phys (agents w)" by (simp add: p)
  finally show ?thesis using frameD(1-6)[OF assms] by (simp add: pframe_def)
qed

lemma pframe_update_self:
  assumes "\<And>a. phys (f a) = phys a"
  shows "pframe (update_self w i f) = pframe w"
  by (simp add: pframe_def update_self_def map_update_same assms)

lemma phys_ball:
  assumes "map phys xs' = map phys xs"
  shows "(\<forall>a \<in> set xs'. P (phys a)) = (\<forall>a \<in> set xs. P (phys a))"
proof -
  have "set (map phys xs') = set (map phys xs)" by (simp only: assms)
  then have "phys ` set xs' = phys ` set xs" by simp
  then have "(\<forall>c \<in> phys ` set xs'. P c) = (\<forall>c \<in> phys ` set xs. P c)" by simp
  then show ?thesis by simp
qed

lemma inv_pframe:
  assumes "pframe w' = pframe w"
  shows "inv w' = inv w"
proof -
  note f = pframeD[OF assms]
  have g: "grid_ok w' = grid_ok w" by (rule grid_ok_fields[OF f(3,1,2)])
  have s: "stacks_ok w' = stacks_ok w" by (rule stacks_ok_fields[OF f(4)])
  have pl: "place = (\<lambda>(i, px, py, c, cb). (i, px, py)) \<circ> phys"
    by (simp add: fun_eq_iff phys_def place_def)
  have "map place (agents w') = map (\<lambda>(i, px, py, c, cb). (i, px, py)) (map phys (agents w'))"
    by (simp add: pl)
  also have "\<dots> = map (\<lambda>(i, px, py, c, cb). (i, px, py)) (map phys (agents w))"
    by (simp only: f(7))
  also have "\<dots> = map place (agents w)" by (simp add: pl)
  finally have a: "agents_ok w' = agents_ok w" by (rule agents_ok_cong[OF f(1,2,3)])
  have b3: "(\<forall>a \<in> set (agents w').
        (carrying_box a \<longrightarrow> (\<exists>bid. carried_box_id a = Some bid \<and> bid \<in> dom (boxes w))) \<and>
        agent_id a \<in> dom (agent_deliveries w))
      = (\<forall>a \<in> set (agents w).
        (carrying_box a \<longrightarrow> (\<exists>bid. carried_box_id a = Some bid \<and> bid \<in> dom (boxes w))) \<and>
        agent_id a \<in> dom (agent_deliveries w))"
    using phys_ball[OF f(7), of "\<lambda>(i, px, py, c, cb).
        (c \<longrightarrow> (\<exists>bid. cb = Some bid \<and> bid \<in> dom (boxes w))) \<and> i \<in> dom (agent_deliveries w)"]
    by (simp add: phys_def)
  have b: "boxes_ok w' = boxes_ok w"
    unfolding boxes_ok_def f(4,5,6) b3 ..
  show ?thesis unfolding inv_def g s a b ..
qed

lemma items_pframe:
  assumes "pframe w' = pframe w"
  shows "items_in_stacks w' = items_in_stacks w" "items_carried w' = items_carried w"
    "stack_at w' pos = stack_at w pos"
proof -
  note f = pframeD[OF assms]
  show "items_in_stacks w' = items_in_stacks w" by (simp add: items_in_stacks_def f(4))
  show "stack_at w' pos = stack_at w pos" by (simp add: stack_at_def f(4))
  have c: "carrying_box = (\<lambda>(i, px, py, c, r). c) \<circ> phys"
    by (simp add: fun_eq_iff phys_def)
  have "length (filter carrying_box (agents w'))
      = length (filter (\<lambda>(i, px, py, c, r). c) (map phys (agents w')))"
    by (simp add: c filter_map)
  also have "\<dots> = length (filter (\<lambda>(i, px, py, c, r). c) (map phys (agents w)))"
    by (simp only: f(7))
  also have "\<dots> = length (filter carrying_box (agents w))"
    by (simp add: c filter_map)
  finally show "items_carried w' = items_carried w" by (simp add: items_carried_def)
qed

text \<open>
  A step of agent \<open>i\<close> is quiet when it changes nothing physical and, of the other agents,
  only inbox and bookkeeping fields outside \<open>core\<close>.
\<close>

definition quiet :: "nat \<Rightarrow> warehouse \<Rightarrow> warehouse \<Rightarrow> bool" where
  "quiet i w w' \<longleftrightarrow>
     pframe w' = pframe w \<and>
     (\<forall>j < length (agents w). j \<noteq> i \<longrightarrow> core (agents w' ! j) = core (agents w ! j))"

lemma quiet_refl: "quiet i w w"
  by (simp add: quiet_def)

lemma quiet_length: "quiet i w w' \<Longrightarrow> length (agents w') = length (agents w)"
  unfolding quiet_def using pframeD(8)[of w' w] by blast

lemma quiet_trans:
  assumes "quiet i w w1" "quiet i w1 w2"
  shows "quiet i w w2"
proof -
  from assms have p: "pframe w1 = pframe w" "pframe w2 = pframe w1" by (simp_all add: quiet_def)
  have l: "length (agents w1) = length (agents w)" by (rule pframeD(8)[OF p(1)])
  from assms l have "\<forall>j < length (agents w). j \<noteq> i \<longrightarrow> core (agents w2 ! j) = core (agents w ! j)"
    by (simp add: quiet_def)
  with p show ?thesis by (simp add: quiet_def)
qed

lemma quiet_frame:
  assumes "frame w' = frame w"
  shows "quiet i w w'"
  using frame_pframe[OF assms] frame_nth[OF assms] by (simp add: quiet_def)

lemma quiet_update_self:
  assumes "\<And>a. phys (f a) = phys a"
  shows "quiet i w (update_self w i f)"
  using pframe_update_self[of f w i, OF assms] by (simp add: quiet_def update_self_def)

lemma quiet_self:
  assumes "quiet i w w'" "i < length (agents w)"
  shows "phys (agents w' ! i) = phys (agents w ! i)"
  using assms pframe_nth[of w' w i] by (simp add: quiet_def)

text \<open>A stack may only shrink when it held exactly one box.\<close>

definition depth_ok :: "warehouse \<Rightarrow> warehouse \<Rightarrow> bool" where
  "depth_ok w w' \<longleftrightarrow>
     (\<forall>pos. length (stack_at w' pos) < length (stack_at w pos) \<longrightarrow> length (stack_at w pos) = 1)"

lemma depth_okD:
  "depth_ok w w' \<Longrightarrow> length (stack_at w' pos) < length (stack_at w pos) \<Longrightarrow>
   length (stack_at w pos) = 1"
  unfolding depth_ok_def by blast

lemma depth_ok_trans:
  assumes "depth_ok w w1" "depth_ok w1 w2"
  shows "depth_ok w w2"
  unfolding depth_ok_def
proof (intro allI impI)
  fix pos assume h: "length (stack_at w2 pos) < length (stack_at w pos)"
  show "length (stack_at w pos) = 1"
  proof (cases "length (stack_at w1 pos) < length (stack_at w pos)")
    case True
    with assms(1) show ?thesis by (rule depth_okD)
  next
    case False
    with h have "length (stack_at w2 pos) < length (stack_at w1 pos)" by simp
    with assms(2) have "length (stack_at w1 pos) = 1" by (rule depth_okD)
    with False h show ?thesis by simp
  qed
qed

text \<open>
  What every step of agent \<open>i\<close> guarantees: the result is well formed, no agent is
  added or lost, the number of boxes in stacks and in hands is the same, the other agents
  keep their \<open>core\<close>, the acting agent keeps its identifier, and stacks shrink only
  from depth one.
\<close>

definition legal :: "nat \<Rightarrow> warehouse \<Rightarrow> warehouse \<Rightarrow> bool" where
  "legal i w w' \<longleftrightarrow>
     inv w' \<and> length (agents w') = length (agents w) \<and>
     items_in_stacks w' + items_carried w' = items_in_stacks w + items_carried w \<and>
     (\<forall>j < length (agents w). j \<noteq> i \<longrightarrow> core (agents w' ! j) = core (agents w ! j)) \<and>
     agent_id (agents w' ! i) = agent_id (agents w ! i) \<and>
     depth_ok w w'"

lemma legal_trans:
  assumes "legal i w w1" "legal i w1 w2"
  shows "legal i w w2"
proof -
  from assms have l: "length (agents w1) = length (agents w)" by (simp add: legal_def)
  from assms have d: "depth_ok w w2" using depth_ok_trans[of w w1 w2] by (simp add: legal_def)
  from assms have o1: "\<forall>j < length (agents w). j \<noteq> i \<longrightarrow> core (agents w1 ! j) = core (agents w ! j)"
    and o2: "\<forall>j < length (agents w). j \<noteq> i \<longrightarrow> core (agents w2 ! j) = core (agents w1 ! j)"
    unfolding legal_def l by blast+
  from o1 o2 have o: "\<forall>j < length (agents w). j \<noteq> i \<longrightarrow> core (agents w2 ! j) = core (agents w ! j)"
    by simp
  from assms have "inv w2" "length (agents w2) = length (agents w)"
    "items_in_stacks w2 + items_carried w2 = items_in_stacks w + items_carried w"
    "agent_id (agents w2 ! i) = agent_id (agents w ! i)"
    unfolding legal_def by simp_all
  with d o show ?thesis unfolding legal_def by blast
qed

lemma legal_quiet:
  assumes "inv w" "quiet i w w'" "i < length (agents w)"
  shows "legal i w w'"
proof -
  from assms(2) have p: "pframe w' = pframe w" by (simp add: quiet_def)
  have "agent_id (agents w' ! i) = agent_id (agents w ! i)"
    using quiet_self[OF assms(2,3)] by (simp add: phys_def)
  moreover have "depth_ok w w'" unfolding depth_ok_def by (simp add: items_pframe(3)[OF p])
  moreover have "\<forall>j < length (agents w). j \<noteq> i \<longrightarrow> core (agents w' ! j) = core (agents w ! j)"
    using assms(2) by (simp add: quiet_def)
  moreover have "inv w'" using assms(1) inv_pframe[OF p] by simp
  moreover have "items_in_stacks w' + items_carried w' = items_in_stacks w + items_carried w"
    by (simp add: items_pframe(1,2)[OF p])
  ultimately show ?thesis unfolding legal_def using pframeD(8)[OF p] by blast
qed

lemma legal_dropped:
  assumes "inv w" "i < length (agents w)" "dropped w i w'"
  shows "legal i w w'"
proof -
  let ?a = "agents w ! i"
  let ?pos = "(agent_x ?a, agent_y ?a)"
  from assms(3) obtain bid where
    ag: "agents w' = (agents w)[i := ?a\<lparr>carrying_box := False, carried_box_id := None\<rparr>]"
    and bl: "box_locations w' = AList.update ?pos (stack_at w ?pos @ [bid]) (box_locations w)"
    unfolding dropped_def Let_def by blast
  have st: "\<And>q. stack_at w' q = (if q = ?pos then stack_at w ?pos @ [bid] else stack_at w q)"
    by (simp add: stack_at_def bl update_conv')
  have "depth_ok w w'" unfolding depth_ok_def by (simp add: st)
  moreover have "\<forall>j < length (agents w). j \<noteq> i \<longrightarrow> core (agents w' ! j) = core (agents w ! j)"
    by (simp add: ag)
  moreover have "agent_id (agents w' ! i) = agent_id (agents w ! i)" using assms(2) by (simp add: ag)
  moreover have "length (agents w') = length (agents w)" by (simp add: ag)
  moreover have "items_in_stacks w' + items_carried w' = items_in_stacks w + items_carried w"
    using dropped_items[OF assms(3,2)] by simp
  ultimately show ?thesis using dropped_inv[OF assms] unfolding legal_def by blast
qed

lemma legal_picked:
  assumes "inv w" "i < length (agents w)" "is_valid_position w px py" "picked w i (px, py) w'"
  shows "legal i w w'"
proof -
  let ?a = "agents w ! i"
  from assms(4) obtain bid and b0 :: box where
    m: "map_of (box_locations w) (px, py) = Some [bid]"
    and ag: "agents w' = (agents w)[i := ?a\<lparr>carrying_box := True, carried_box_id := Some (box_id b0)\<rparr>]"
    and bl: "box_locations w' = AList.delete (px, py) (box_locations w)"
    unfolding picked_def Let_def by auto
  have st: "\<And>q. stack_at w' q = (if q = (px, py) then [] else stack_at w q)"
    by (simp add: stack_at_def bl delete_conv')
  have "stack_at w (px, py) = [bid]" using m by (simp add: stack_at_def)
  then have "depth_ok w w'" unfolding depth_ok_def by (simp add: st)
  moreover have "\<forall>j < length (agents w). j \<noteq> i \<longrightarrow> core (agents w' ! j) = core (agents w ! j)"
    by (simp add: ag)
  moreover have "agent_id (agents w' ! i) = agent_id (agents w ! i)" using assms(2) by (simp add: ag)
  moreover have "length (agents w') = length (agents w)" by (simp add: ag)
  moreover have "stacks_ok w" using assms(1) by (simp add: inv_def)
  then have "items_in_stacks w' + items_carried w' = items_in_stacks w + items_carried w"
    using picked_items[OF _ assms(2,4)] by simp
  ultimately show ?thesis using picked_inv[OF assms] unfolding legal_def by blast
qed

lemma legal_moved:
  assumes "inv w" "i < length (agents w)" "moved w i dest w'"
  shows "legal i w w'"
proof -
  let ?a = "agents w ! i"
  obtain nx ny where dest: "dest = (nx, ny)" by (cases dest)
  from assms(3) have
    ag: "agents w' = (agents w)[i := ?a\<lparr>agent_x := nx, agent_y := ny, movements := movements ?a + 1\<rparr>]"
    and bl: "box_locations w' = box_locations w"
    unfolding moved_def Let_def dest by simp_all
  have "depth_ok w w'" unfolding depth_ok_def by (simp add: stack_at_def bl)
  moreover have "\<forall>j < length (agents w). j \<noteq> i \<longrightarrow> core (agents w' ! j) = core (agents w ! j)"
    by (simp add: ag)
  moreover have "agent_id (agents w' ! i) = agent_id (agents w ! i)" using assms(2) by (simp add: ag)
  moreover have "length (agents w') = length (agents w)" by (simp add: ag)
  moreover have "items_in_stacks w' = items_in_stacks w" by (simp add: items_in_stacks_def bl)
  moreover have "items_carried w' = items_carried w"
    using filter_update_length[OF assms(2), of carrying_box
        "?a\<lparr>agent_x := nx, agent_y := ny, movements := movements ?a + 1\<rparr>"]
    by (simp add: items_carried_def ag)
  ultimately show ?thesis using moved_inv[OF assms(1,2) assms(3)[unfolded dest]]
    unfolding legal_def by simp
qed

lemma frame_self:
  assumes "frame w' = frame w" "i < length (agents w)"
  shows "state (agents w' ! i) = state (agents w ! i)"
    "carrying_box (agents w' ! i) = carrying_box (agents w ! i)"
    "agent_x (agents w' ! i) = agent_x (agents w ! i)"
    "agent_y (agents w' ! i) = agent_y (agents w ! i)"
    "agent_id (agents w' ! i) = agent_id (agents w ! i)"
    "length (agents w') = length (agents w)"
  using coreD[OF frame_nth[OF assms]] frameD(8)[OF assms(1)] by simp_all

lemma legal_frame:
  assumes "inv w" "frame w' = frame w" "i < length (agents w)"
  shows "legal i w w'"
  by (rule legal_quiet[OF assms(1) quiet_frame[OF assms(2)] assms(3)])

lemma legal_update_self:
  assumes "inv w" "i < length (agents w)" "\<And>a. phys (f a) = phys a"
  shows "legal i w (update_self w i f)"
  by (rule legal_quiet[OF assms(1) quiet_update_self[of f, OF assms(3)] assms(2)])

lemma legal_refl: "inv w \<Longrightarrow> i < length (agents w) \<Longrightarrow> legal i w w"
  by (rule legal_quiet[OF _ quiet_refl])

lemma legalD:
  assumes "legal i w w'"
  shows "inv w'" "length (agents w') = length (agents w)"
  using assms by (simp_all add: legal_def)

lemma legal_then_frame:
  assumes "legal i w w1" "frame w' = frame w1" "i < length (agents w)"
  shows "legal i w w'"
proof -
  have "legal i w1 w'"
    using legal_frame[OF legalD(1)[OF assms(1)] assms(2)] legalD(2)[OF assms(1)] assms(3) by simp
  with assms(1) show ?thesis by (rule legal_trans)
qed

lemma legal_then_update:
  assumes "legal i w w1" "i < length (agents w)" "\<And>a. phys (f a) = phys a"
  shows "legal i w (update_self w1 i f)"
proof -
  have "legal i w1 (update_self w1 i f)"
    using legal_update_self[OF legalD(1)[OF assms(1)] _ assms(3)] legalD(2)[OF assms(1)] assms(2)
    by simp
  with assms(1) show ?thesis by (rule legal_trans)
qed

lemma legal_drop_box:
  assumes "inv w" "i < length (agents w)" "drop_box w i = Some (r, w')"
  shows "legal i w w'" "state (agents w' ! i) = state (agents w ! i)"
    "r \<Longrightarrow> \<not> carrying_box (agents w' ! i)" "\<not> r \<Longrightarrow> w' = w"
proof -
  from assms(1) have g: "grid_ok w" "agents_ok w" "boxes_ok w" by (simp_all add: inv_def)
  note res = drop_box_result[OF g assms(2,3)]
  show "legal i w w'"
    using res legal_refl[OF assms(1,2)] legal_dropped[OF assms(1,2)] by blast
  show "state (agents w' ! i) = state (agents w ! i)"
    using res assms(2) unfolding dropped_def Let_def by auto
  show "r \<Longrightarrow> \<not> carrying_box (agents w' ! i)"
    using res assms(2) unfolding dropped_def Let_def by auto
  show "\<not> r \<Longrightarrow> w' = w" using res by blast
qed

text \<open>
  \<^verbatim>\<open>decide_action\<close> never enters DELIVERING: an agent that is DELIVERING afterwards was so
  before and carries what it carried.
\<close>

definition kept :: "nat \<Rightarrow> warehouse \<Rightarrow> warehouse \<Rightarrow> bool" where
  "kept i w w' \<longleftrightarrow>
     legal i w w' \<and>
     (state (agents w' ! i) = DELIVERING \<longrightarrow>
        state (agents w ! i) = DELIVERING \<and>
        carrying_box (agents w' ! i) = carrying_box (agents w ! i))"

lemma kept_frame:
  assumes "inv w" "i < length (agents w)" "frame w' = frame w"
  shows "kept i w w'"
  using legal_frame[OF assms(1,3,2)] frame_self(1,2)[OF assms(3,2)] by (simp add: kept_def)

lemma kept_set_state:
  assumes "inv w" "i < length (agents w)" "frame w1 = frame w"
    and "\<And>a. phys (f a) = phys a" "\<And>a. state (f a) \<noteq> DELIVERING"
    and "frame w' = frame (update_self w1 i f)"
  shows "kept i w w'"
proof -
  have l1: "legal i w w1" by (rule legal_frame[OF assms(1,3,2)])
  have l2: "legal i w (update_self w1 i f)" by (rule legal_then_update[OF l1 assms(2,4)])
  have l3: "legal i w w'" by (rule legal_then_frame[OF l2 assms(6,2)])
  have i1: "i < length (agents w1)" using frameD(8)[OF assms(3)] assms(2) by simp
  then have i2: "i < length (agents (update_self w1 i f))" by simp
  have "state (agents w' ! i) = state (f (agents w1 ! i))"
    using frame_self(1)[OF assms(6) i2] i1 by (simp add: update_self_nth)
  with assms(5) l3 show ?thesis by (simp add: kept_def)
qed

lemma kept_same_state:
  assumes "inv w" "i < length (agents w)" "frame w1 = frame w"
    and "\<And>a. core (f a) = core a"
    and "frame w' = frame (update_self w1 i f)"
  shows "kept i w w'"
proof -
  have "frame (update_self w1 i f) = frame w1" by (rule frame_update_self[OF assms(4)])
  with assms(3,5) have "frame w' = frame w" by simp
  then show ?thesis by (rule kept_frame[OF assms(1,2)])
qed

lemma decide_action_kept:
  assumes "inv w" "i < length (agents w)" "decide_action w i reroll draws = Some w'"
  shows "kept i w w'"
proof -
  let ?w1 = "process_messages w i"
  have f1: "frame ?w1 = frame w" by (rule frame_process_messages)
  have i1: "i < length (agents ?w1)" using frameD(8)[OF f1] assms(2) by simp
  from assms(3) obtain w2 where se: "sense_environment ?w1 i = Some w2"
    by (auto simp: decide_action_def split: Option.bind_splits)
  have f2: "frame w2 = frame w" using frame_sense_environment[OF se i1] f1 by simp
  have i2: "i < length (agents w2)" using frameD(8)[OF f2] assms(2) by simp
  note d = assms(3)[unfolded decide_action_def se, simplified]
  show ?thesis
  proof (cases "state (agents w2 ! i)")
    case SEARCHING
    obtain kb w3 where k: "find_nearest_known_box w2 i = (kb, w3)" by (cases "find_nearest_known_box w2 i")
    have f3: "frame w3 = frame w" using frame_find_nearest_known_box[OF k] f2 by simp
    show ?thesis
    proof (cases kb)
      case (Some known_box)
      with d SEARCHING k
      have "claim_and_route (update_self w3 i (\<lambda>a. a\<lparr>state := PICKING_UP\<rparr>)) i known_box = Some w'"
        by simp
      from frame_claim_and_route[OF this] show ?thesis
        by (intro kept_set_state[OF assms(1,2) f3, of "\<lambda>a. a\<lparr>state := PICKING_UP\<rparr>"])
           (simp_all add: phys_def)
    next
      case None
      show ?thesis
      proof (cases "path (agents w3 ! i) = [] \<or> reroll")
        case True
        with d SEARCHING k None obtain rp where
          "route_to (update_self w3 i (\<lambda>a. a\<lparr>target := Some rp\<rparr>)) i rp = Some w'"
          by (auto split: Option.bind_splits)
        from frame_route_to[OF this] show ?thesis
          by (intro kept_same_state[OF assms(1,2) f3, of "\<lambda>a. a\<lparr>target := Some rp\<rparr>"])
             (simp_all add: core_def)
      next
        case False
        with d SEARCHING k None have "w' = w3" by auto
        with f3 show ?thesis using kept_frame[OF assms(1,2)] by simp
      qed
    qed
  next
    case PICKING_UP
    show ?thesis
    proof (cases "target (agents w2 ! i)")
      case None
      obtain kb w4 where k: "find_nearest_known_box w2 i = (kb, w4)" by (cases "find_nearest_known_box w2 i")
      have f4: "frame w4 = frame w" using frame_find_nearest_known_box[OF k] f2 by simp
      show ?thesis
      proof (cases kb)
        case (Some known_box)
        with d PICKING_UP None k have "claim_and_route w4 i known_box = Some w'" by simp
        from frame_claim_and_route[OF this] f4 have "frame w' = frame w" by simp
        then show ?thesis by (rule kept_frame[OF assms(1,2)])
      next
        case n: None
        with d PICKING_UP None k
        have "w' = update_self w4 i (\<lambda>a. a\<lparr>state := SEARCHING, target := None\<rparr>)" by simp
        then show ?thesis
          by (intro kept_set_state[OF assms(1,2) f4, of "\<lambda>a. a\<lparr>state := SEARCHING, target := None\<rparr>"])
             (simp_all add: phys_def)
      qed
    next
      case (Some t)
      show ?thesis
      proof (cases "is_target_available (agents w2 ! i) t")
        case True
        show ?thesis
        proof (cases "path (agents w2 ! i) = []")
          case p: True
          with d PICKING_UP Some True have "route_to w2 i t = Some w'" by simp
          from frame_route_to[OF this] f2 have "frame w' = frame w" by simp
          then show ?thesis by (rule kept_frame[OF assms(1,2)])
        next
          case p: False
          with d PICKING_UP Some True have "w' = w2" by simp
          with f2 show ?thesis using kept_frame[OF assms(1,2)] by simp
        qed
      next
        case False
        let ?w3 = "release_target w2 i t"
        have f3: "frame ?w3 = frame w" using frame_release_target[of w2 i t] f2 by simp
        obtain kb w4 where k: "find_nearest_known_box ?w3 i = (kb, w4)"
          by (cases "find_nearest_known_box ?w3 i")
        have f4: "frame w4 = frame w" using frame_find_nearest_known_box[OF k] f3 by simp
        show ?thesis
        proof (cases kb)
          case s: (Some known_box)
          with d PICKING_UP Some False k have "claim_and_route w4 i known_box = Some w'" by simp
          from frame_claim_and_route[OF this] f4 have "frame w' = frame w" by simp
          then show ?thesis by (rule kept_frame[OF assms(1,2)])
        next
          case n: None
          with d PICKING_UP Some False k
          have "w' = update_self w4 i (\<lambda>a. a\<lparr>state := SEARCHING, target := None\<rparr>)" by simp
          then show ?thesis
            by (intro kept_set_state[OF assms(1,2) f4, of "\<lambda>a. a\<lparr>state := SEARCHING, target := None\<rparr>"])
               (simp_all add: phys_def)
        qed
      qed
    qed
  next
    case DELIVERING
    from d DELIVERING obtain found where fs: "find_nearest_shelf w2 i = Some found"
      by (auto split: Option.bind_splits)
    show ?thesis
    proof (cases found)
      case (Some shelf)
      show ?thesis
      proof (cases "target (agents w2 ! i) \<noteq> Some shelf")
        case True
        with d DELIVERING fs Some
        have "claim_and_route (release_current_target w2 i) i shelf = Some w'" by simp
        from frame_claim_and_route[OF this] frame_release_current_target[of w2 i] f2
        have "frame w' = frame w" by simp
        then show ?thesis by (rule kept_frame[OF assms(1,2)])
      next
        case False
        show ?thesis
        proof (cases "path (agents w2 ! i) = []")
          case p: True
          with d DELIVERING fs Some False have "route_to w2 i shelf = Some w'" by simp
          from frame_route_to[OF this] f2 have "frame w' = frame w" by simp
          then show ?thesis by (rule kept_frame[OF assms(1,2)])
        next
          case p: False
          with d DELIVERING fs Some False have "w' = w2" by simp
          with f2 show ?thesis using kept_frame[OF assms(1,2)] by simp
        qed
      qed
    next
      case None
      with d DELIVERING fs obtain success w3 where
        dr: "drop_box w2 i = Some (success, w3)"
        and w': "w' = update_self w3 i (\<lambda>a. a\<lparr>state := SEARCHING\<rparr>)"
        by (auto split: Option.bind_splits)
      have inv2: "inv w2" using inv_frame[OF f2] assms(1) by simp
      have l2: "legal i w w2" by (rule legal_frame[OF assms(1) f2 assms(2)])
      have l3: "legal i w w3" using legal_trans[OF l2 legal_drop_box(1)[OF inv2 i2 dr]] .
      have l4: "legal i w w'" unfolding w'
        by (rule legal_then_update[OF l3 assms(2)]) (simp add: phys_def)
      have "i < length (agents w3)" using legalD(2)[OF l3] assms(2) by simp
      then have "state (agents w' ! i) = SEARCHING" by (simp add: w' update_self_nth)
      with l4 show ?thesis by (simp add: kept_def)
    qed
  qed
qed

lemma legal_pick_up_box:
  assumes "inv w" "i < length (agents w)" "is_valid_position w px py"
    and "pick_up_box w i px py = Some (r, w')"
  shows "legal i w w'" "state (agents w' ! i) = state (agents w ! i)"
    "r \<Longrightarrow> carrying_box (agents w' ! i)"
proof -
  from assms(1) have g: "grid_ok w" by (simp add: inv_def)
  note res = pick_up_box_result[OF g assms(2,3,4)]
  show "legal i w w'"
  proof (cases r)
    case False
    with res have "w' = w" by simp
    then show ?thesis using legal_refl[OF assms(1,2)] by simp
  next
    case True
    with res obtain w2 where p: "picked w i (px, py) w2" and f: "frame w' = frame w2" by blast
    from legal_then_frame[OF legal_picked[OF assms(1,2,3) p] f assms(2)] show ?thesis .
  qed
  show "state (agents w' ! i) = state (agents w ! i)"
  proof (cases r)
    case False
    with res show ?thesis by simp
  next
    case True
    with res obtain w2 where p: "picked w i (px, py) w2" and f: "frame w' = frame w2" by blast
    from p have l: "length (agents w2) = length (agents w)"
      and s: "state (agents w2 ! i) = state (agents w ! i)"
      using assms(2) unfolding picked_def Let_def by auto
    with frame_self(1)[OF f] assms(2) show ?thesis by simp
  qed
  show "r \<Longrightarrow> carrying_box (agents w' ! i)"
  proof -
    assume r
    with res obtain w2 where p: "picked w i (px, py) w2" and f: "frame w' = frame w2" by blast
    from p have l: "length (agents w2) = length (agents w)"
      and s: "carrying_box (agents w2 ! i)"
      using assms(2) unfolding picked_def Let_def by auto
    with frame_self(2)[OF f] assms(2) show ?thesis by simp
  qed
qed

lemma legal_move:
  assumes "inv w" "i < length (agents w)" "move w i d = Some (r, w')"
  shows "legal i w w'" "state (agents w' ! i) = state (agents w ! i)"
    "carrying_box (agents w' ! i) = carrying_box (agents w ! i)"
proof -
  from assms(1) have g: "grid_ok w" "agents_ok w" by (simp_all add: inv_def)
  note res = move_result[OF g assms(2,3)]
  let ?dest = "(agent_x (agents w ! i) + fst d, agent_y (agents w ! i) + snd d)"
  show "legal i w w'"
  proof (cases r)
    case False
    with res have "w' = w" by simp
    then show ?thesis using legal_refl[OF assms(1,2)] by simp
  next
    case True
    with res obtain w2 where p: "moved w i ?dest w2" and f: "frame w' = frame w2" by blast
    from legal_then_frame[OF legal_moved[OF assms(1,2) p] f assms(2)] show ?thesis .
  qed
  have "state (agents w' ! i) = state (agents w ! i) \<and>
        carrying_box (agents w' ! i) = carrying_box (agents w ! i)"
  proof (cases r)
    case False
    with res show ?thesis by simp
  next
    case True
    with res obtain w2 where p: "moved w i ?dest w2" and f: "frame w' = frame w2" by blast
    from p have l: "length (agents w2) = length (agents w)"
      and s: "state (agents w2 ! i) = state (agents w ! i)"
        "carrying_box (agents w2 ! i) = carrying_box (agents w ! i)"
      using assms(2) unfolding moved_def Let_def by auto
    with frame_self(1,2)[OF f] assms(2) show ?thesis by simp
  qed
  then show "state (agents w' ! i) = state (agents w ! i)"
    "carrying_box (agents w' ! i) = carrying_box (agents w ! i)" by simp_all
qed

lemma on_arrival_legal:
  assumes "inv w" "i < length (agents w)" "on_arrival w i = Some w'"
  shows "legal i w w'" "state (agents w' ! i) = DELIVERING \<Longrightarrow> carrying_box (agents w' ! i)"
proof -
  note a = agent_cell(1)[of w i]
  from assms(1) have ao: "agents_ok w" by (simp add: inv_def)
  have "legal i w w' \<and> (state (agents w' ! i) = DELIVERING \<longrightarrow> carrying_box (agents w' ! i))"
  proof (cases "state (agents w ! i)")
    case SEARCHING
    with assms(3) have w': "w' = update_self w i (\<lambda>a. a\<lparr>target := None\<rparr>)"
      by (simp add: on_arrival_def)
    have "legal i w w'" unfolding w' by (rule legal_update_self[OF assms(1,2)]) (simp add: phys_def)
    moreover have "state (agents w' ! i) = SEARCHING"
      using assms(2) SEARCHING by (simp add: w' update_self_nth)
    ultimately show ?thesis by simp
  next
    case PICKING_UP
    with assms(3) obtain r w1 where
      p: "pick_up_box w i (agent_x (agents w ! i)) (agent_y (agents w ! i)) = Some (r, w1)"
      and w': "w' = update_self (release_current_target w1 i) i
                    (\<lambda>a. a\<lparr>state := (if r then DELIVERING else SEARCHING), target := None\<rparr>)"
      by (auto simp: on_arrival_def split: Option.bind_splits)
    note lp = legal_pick_up_box[OF assms(1,2) a[OF ao assms(2)] p]
    let ?w2 = "release_current_target w1 i"
    have f2: "frame ?w2 = frame w1" by (rule frame_release_current_target)
    have l2: "legal i w ?w2" by (rule legal_then_frame[OF lp(1) f2 assms(2)])
    have l3: "legal i w w'" unfolding w'
      by (rule legal_then_update[OF l2 assms(2)]) (simp add: phys_def)
    have i1: "i < length (agents w1)" using legalD(2)[OF lp(1)] assms(2) by simp
    have i2: "i < length (agents ?w2)" using legalD(2)[OF l2] assms(2) by simp
    have "state (agents w' ! i) = DELIVERING \<longrightarrow> carrying_box (agents w' ! i)"
    proof
      assume "state (agents w' ! i) = DELIVERING"
      with i2 have r by (simp add: w' update_self_nth split: if_splits)
      from lp(3)[OF this] frame_self(2)[OF f2 i1] have "carrying_box (agents ?w2 ! i)" by simp
      with i2 show "carrying_box (agents w' ! i)" by (simp add: w' update_self_nth)
    qed
    with l3 show ?thesis by simp
  next
    case DELIVERING
    with assms(3) obtain r w1 where
      dr: "drop_box w i = Some (r, w1)"
      and rest: "(case find_nearest_known_box
                    (update_self (release_current_target w1 i) i (\<lambda>a. a\<lparr>target := None\<rparr>)) i of
              (Some known_box, w3) \<Rightarrow>
                claim_and_route (update_self w3 i (\<lambda>a. a\<lparr>state := PICKING_UP\<rparr>)) i known_box
            | (None, w3) \<Rightarrow> Some (update_self w3 i (\<lambda>a. a\<lparr>state := SEARCHING\<rparr>))) = Some w'"
      by (auto simp: on_arrival_def Let_def split: Option.bind_splits)
    note ld = legal_drop_box(1)[OF assms(1,2) dr]
    let ?w2 = "update_self (release_current_target w1 i) i (\<lambda>a. a\<lparr>target := None\<rparr>)"
    have f2: "frame ?w2 = frame w1"
      using frame_update_self[of "\<lambda>a. a\<lparr>target := None\<rparr>" "release_current_target w1 i" i]
        frame_release_current_target[of w1 i] by (simp add: core_def)
    have l2: "legal i w ?w2" by (rule legal_then_frame[OF ld f2 assms(2)])
    obtain kb w3 where k: "find_nearest_known_box ?w2 i = (kb, w3)"
      by (cases "find_nearest_known_box ?w2 i")
    have f3: "frame w3 = frame ?w2" by (rule frame_find_nearest_known_box[OF k])
    have l3: "legal i w w3" by (rule legal_then_frame[OF l2 f3 assms(2)])
    have i3: "i < length (agents w3)" using legalD(2)[OF l3] assms(2) by simp
    show ?thesis
    proof (cases kb)
      case None
      with rest k have w': "w' = update_self w3 i (\<lambda>a. a\<lparr>state := SEARCHING\<rparr>)" by simp
      have "legal i w w'" unfolding w'
        by (rule legal_then_update[OF l3 assms(2)]) (simp add: phys_def)
      moreover have "state (agents w' ! i) = SEARCHING" using i3 by (simp add: w' update_self_nth)
      ultimately show ?thesis by simp
    next
      case (Some known_box)
      let ?w4 = "update_self w3 i (\<lambda>a. a\<lparr>state := PICKING_UP\<rparr>)"
      from Some rest k have c: "claim_and_route ?w4 i known_box = Some w'" by simp
      have l4: "legal i w ?w4" by (rule legal_then_update[OF l3 assms(2)]) (simp add: phys_def)
      note f5 = frame_claim_and_route[OF c]
      have l5: "legal i w w'" by (rule legal_then_frame[OF l4 f5 assms(2)])
      have "i < length (agents ?w4)" using i3 by simp
      from frame_self(1)[OF f5 this] i3 have "state (agents w' ! i) = PICKING_UP"
        by (simp add: update_self_nth)
      with l5 show ?thesis by simp
    qed
  qed
  then show "legal i w w'" "state (agents w' ! i) = DELIVERING \<Longrightarrow> carrying_box (agents w' ! i)"
    by simp_all
qed

text \<open>A legal step that keeps "a DELIVERING agent carries a box" for the acting agent.\<close>

definition sound :: "nat \<Rightarrow> warehouse \<Rightarrow> warehouse \<Rightarrow> bool" where
  "sound i w w' \<longleftrightarrow>
     legal i w w' \<and>
     ((state (agents w ! i) = DELIVERING \<longrightarrow> carrying_box (agents w ! i)) \<longrightarrow>
      (state (agents w' ! i) = DELIVERING \<longrightarrow> carrying_box (agents w' ! i)))"

lemma sound_trans: "sound i w w1 \<Longrightarrow> sound i w1 w2 \<Longrightarrow> sound i w w2"
  unfolding sound_def using legal_trans by blast

lemma decide_action_sound:
  assumes "inv w" "i < length (agents w)" "decide_action w i reroll draws = Some w'"
  shows "sound i w w'"
  using decide_action_kept[OF assms] by (auto simp: sound_def kept_def)

lemma advance_legal:
  assumes "inv w" "i < length (agents w)" "advance w i = Some w'"
  shows "legal i w w'" "state (agents w' ! i) = state (agents w ! i)"
    "carrying_box (agents w' ! i) = carrying_box (agents w ! i)"
proof -
  let ?w0 = "update_self w i (\<lambda>a. a\<lparr>path := tl (path a)\<rparr>)"
  from assms(3) obtain r w1 where
    m: "move ?w0 i (hd (path (agents w ! i))) = Some (r, w1)"
    and w': "w' = (if \<not> r then update_self w1 i (\<lambda>a. a\<lparr>path := []\<rparr>) else w1)"
    by (auto simp: advance_def Let_def split: Option.bind_splits)
  have l0: "legal i w ?w0" by (rule legal_update_self[OF assms(1,2)]) (simp add: phys_def)
  have i0: "i < length (agents ?w0)" using assms(2) by simp
  have s0: "state (agents ?w0 ! i) = state (agents w ! i)"
    "carrying_box (agents ?w0 ! i) = carrying_box (agents w ! i)"
    using assms(2) by (simp_all add: update_self_nth)
  note lm = legal_move[OF legalD(1)[OF l0] i0 m]
  have l1: "legal i w w1" by (rule legal_trans[OF l0 lm(1)])
  have i1: "i < length (agents w1)" using legalD(2)[OF l1] assms(2) by simp
  show "legal i w w'"
  proof (cases r)
    case True
    then show ?thesis using l1 by (simp add: w')
  next
    case False
    have "legal i w (update_self w1 i (\<lambda>a. a\<lparr>path := []\<rparr>))"
      by (rule legal_then_update[OF l1 assms(2)]) (simp add: phys_def)
    with False show ?thesis by (simp add: w')
  qed
  show "state (agents w' ! i) = state (agents w ! i)"
    "carrying_box (agents w' ! i) = carrying_box (agents w ! i)"
    using lm(2,3) s0 i1 by (simp_all add: w' update_self_nth)
qed

lemma execute_action_sound:
  assumes "inv w" "i < length (agents w)" "execute_action w i = Some w'"
  shows "sound i w w'"
proof (cases "path (agents w ! i) = []")
  case True
  with assms(3) have "sense_environment w i = Some w'" by (simp add: execute_action_def)
  note f = frame_sense_environment[OF this assms(2)]
  from legal_frame[OF assms(1) f assms(2)] frame_self(1,2)[OF f assms(2)]
  show ?thesis by (simp add: sound_def)
next
  case False
  with assms(3) obtain w2 where a: "advance w i = Some w2"
    and rest: "(if path (agents w2 ! i) = []
           \<and> target (agents w2 ! i) = Some (agent_x (agents w2 ! i), agent_y (agents w2 ! i))
         then on_arrival w2 i else Some w2) = Some w'"
    by (auto simp: execute_action_def split: Option.bind_splits)
  note l2 = advance_legal[OF assms(1,2) a]
  have i2: "i < length (agents w2)" using legalD(2)[OF l2(1)] assms(2) by simp
  show ?thesis
  proof (cases "path (agents w2 ! i) = []
           \<and> target (agents w2 ! i) = Some (agent_x (agents w2 ! i), agent_y (agents w2 ! i))")
    case True
    with rest have oa: "on_arrival w2 i = Some w'" by simp
    note la = on_arrival_legal[OF legalD(1)[OF l2(1)] i2 oa]
    from legal_trans[OF l2(1) la(1)] la(2) show ?thesis by (simp add: sound_def)
  next
    case False
    with rest have "w' = w2" by auto
    with l2 show ?thesis by (simp add: sound_def)
  qed
qed

section \<open>A concrete warehouse\<close>

text \<open>
  A 3 by 3 grid whose only interior cell holds agent 0, which carries box 7.
\<close>

definition example_agent :: agent where
  "example_agent =
     \<lparr>agent_id = 0, agent_x = 1, agent_y = 1, carrying_box = True, carried_box_id = Some 7,
      movements = 0, state = DELIVERING, target = None, path = [],
      known_unassigned_boxes = [], sensor_range = 3, communication_range = 8,
      messages = [], claimed_targets = Map.empty\<rparr>"

definition example_warehouse :: warehouse where
  "example_warehouse =
     \<lparr>width = 3, height = 3, num_boxes = 1, num_agents = 1,
      grid = [[1, 1, 1], [1, 3, 1], [1, 1, 1]],
      agents = [example_agent],
      boxes = [7 \<mapsto> \<lparr>box_id = 7, box_x = 1, box_y = 1, in_stack = False, stack_size = 1\<rparr>],
      box_locations = [],
      processed_boxes = {7}, total_movements = 0, steps = 0,
      agent_deliveries = [0 \<mapsto> 0]\<rparr>"

lemma example_valid_cases:
  "is_valid_position example_warehouse px py \<longleftrightarrow> px \<in> {0, 1, 2} \<and> py \<in> {0, 1, 2}"
  by (auto simp: is_valid_position_def example_warehouse_def)

lemma example_grid_ok: "grid_ok example_warehouse"
  by (simp add: grid_ok_def example_warehouse_def)

lemma example_agents_ok: "agents_ok example_warehouse"
  unfolding agents_ok_def example_valid_cases
  by (auto simp: example_warehouse_def example_agent_def cell_at_def)

lemma example_boxes_ok: "boxes_ok example_warehouse"
  by (auto simp: boxes_ok_def example_warehouse_def example_agent_def)

lemma example_stacks_ok: "stacks_ok example_warehouse"
  by (simp add: stacks_ok_def example_warehouse_def)

text \<open>
  A 5 by 3 corridor: agent 0 at \<open>(1, 1)\<close>, a single box at \<open>(2, 1)\<close> and agent 1
  at \<open>(3, 1)\<close>, within communication range.
\<close>

definition sensing_agent :: "int \<Rightarrow> int \<Rightarrow> agent_state \<Rightarrow> agent" where
  "sensing_agent aid px st =
     \<lparr>agent_id = aid, agent_x = px, agent_y = 1, carrying_box = False, carried_box_id = None,
      movements = 0, state = st, target = None, path = [],
      known_unassigned_boxes = [], sensor_range = 3, communication_range = 8,
      messages = [], claimed_targets = Map.empty\<rparr>"

definition sensing_warehouse :: "agent_state \<Rightarrow> warehouse" where
  "sensing_warehouse st =
     \<lparr>width = 5, height = 3, num_boxes = 1, num_agents = 2,
      grid = [[1, 1, 1], [1, 3, 1], [1, 2, 1], [1, 4, 1], [1, 1, 1]],
      agents = [sensing_agent 0 1 st, sensing_agent 1 3 SEARCHING],
      boxes = [0 \<mapsto> \<lparr>box_id = 0, box_x = 2, box_y = 1, in_stack = False, stack_size = 1\<rparr>],
      box_locations = [((2, 1), [0])],
      processed_boxes = {}, total_movements = 0, steps = 0,
      agent_deliveries = [0 \<mapsto> 0, 1 \<mapsto> 0]\<rparr>"

lemma sensing_returns: "sense_environment (sensing_warehouse st) 0 \<noteq> None"
  by (cases st) (simp_all add: sense_environment_def directions_def sensing_warehouse_def sensing_agent_def
      sense_cell_def is_valid_position_def get_cell_type_def grid_get_def py_index_def
      count_stack_size_def is_shelf_target_def upto.simps record_discovery_def update_self_def
      broadcast_message_def in_broadcast_range_def receive_message_def)

lemma sensing_facts:
  "agents (sensing_warehouse st) ! 0 = sensing_agent 0 1 st"
  "agents (sensing_warehouse st) ! 1 = sensing_agent 1 3 SEARCHING"
  "length (agents (sensing_warehouse st)) = 2"
  "in_broadcast_range (sensing_agent 0 1 st) (sensing_agent 1 3 SEARCHING)"
  "known_unassigned_boxes (sensing_agent 0 1 st) = []"
  "messages (sensing_agent 1 3 SEARCHING) = []"
  "state (sensing_agent 0 1 st) = st"
  "agents (sensing_warehouse st) ! Suc 0 = sensing_agent 1 3 SEARCHING"
  by (simp_all add: sensing_warehouse_def sensing_agent_def in_broadcast_range_def)

lemma sensing_candidate: "candidate (sensing_warehouse st) 0 (2, 1)"
  by (simp add: candidate_def sensing_warehouse_def sensing_agent_def is_valid_position_def
      get_cell_type_def grid_get_def py_index_def count_stack_size_def is_shelf_target_def)

lemma sensing_in_sight: "in_sight (sensing_warehouse st) 0 (2, 1)"
  unfolding in_sight_def
  by (rule bexI[of _ "(1, 0)"], rule exI[of _ 1])
     (auto simp: sensing_facts ray_cell_def sensing_agent_def directions_def)

section \<open>Placement legality\<close>

text \<open>
  Claim C8. On every in-bounds position of a well-formed warehouse and for every agent
  id, \<^verbatim>\<open>can_place_box\<close> returns true exactly when the stack there holds fewer
  than five boxes and no agent with a different id stands on the cell; in particular
  an agent standing on the cell may place there whenever the stack is not full.
\<close>

theorem can_place_box_contract:
  assumes "grid_ok w" and "agents_ok w" and "is_valid_position w px py"
  shows "can_place_box w px py aid =
           Some (count_stack_size w px py < 5 \<and>
                 \<not> (\<exists>a \<in> set (agents w). agent_x a = px \<and> agent_y a = py \<and> agent_id a \<noteq> aid))
         \<and> (\<forall>a \<in> set (agents w). agent_x a = px \<and> agent_y a = py \<and> agent_id a = aid \<longrightarrow>
               can_place_box w px py aid = Some (count_stack_size w px py < 5))"
proof -
  have occ: "(cell_at w px py \<ge> 3 \<longrightarrow> cell_at w px py - 3 = aid) \<longleftrightarrow>
        \<not> (\<exists>a \<in> set (agents w). agent_x a = px \<and> agent_y a = py \<and> agent_id a \<noteq> aid)"
  proof
    assume c: "cell_at w px py \<ge> 3 \<longrightarrow> cell_at w px py - 3 = aid"
    show "\<not> (\<exists>a \<in> set (agents w). agent_x a = px \<and> agent_y a = py \<and> agent_id a \<noteq> aid)"
    proof
      assume "\<exists>a \<in> set (agents w). agent_x a = px \<and> agent_y a = py \<and> agent_id a \<noteq> aid"
      then obtain a where a: "a \<in> set (agents w)" "agent_x a = px" "agent_y a = py" "agent_id a \<noteq> aid"
        by blast
      with assms(2) have "cell_at w px py = 3 + agent_id a" "0 \<le> agent_id a"
        by (auto simp: agents_ok_def)
      with c a(4) show False by simp
    qed
  next
    assume n: "\<not> (\<exists>a \<in> set (agents w). agent_x a = px \<and> agent_y a = py \<and> agent_id a \<noteq> aid)"
    show "cell_at w px py \<ge> 3 \<longrightarrow> cell_at w px py - 3 = aid"
    proof
      assume "cell_at w px py \<ge> 3"
      with assms(2,3) obtain a where a: "a \<in> set (agents w)" "agent_x a = px" "agent_y a = py"
        unfolding agents_ok_def by blast
      with n have "agent_id a = aid" by blast
      moreover from assms(2) a have "cell_at w px py = 3 + agent_id a"
        by (auto simp: agents_ok_def)
      ultimately show "cell_at w px py - 3 = aid" by simp
    qed
  qed
  have first: "can_place_box w px py aid =
           Some (count_stack_size w px py < 5 \<and>
                 \<not> (\<exists>a \<in> set (agents w). agent_x a = px \<and> agent_y a = py \<and> agent_id a \<noteq> aid))"
    using can_place_box_valid[OF assms(1,3)] occ by simp
  have second: "\<forall>a \<in> set (agents w). agent_x a = px \<and> agent_y a = py \<and> agent_id a = aid \<longrightarrow>
               can_place_box w px py aid = Some (count_stack_size w px py < 5)"
  proof (intro ballI impI)
    fix a assume a: "a \<in> set (agents w)" "agent_x a = px \<and> agent_y a = py \<and> agent_id a = aid"
    with assms(2) have "cell_at w px py = 3 + aid" by (auto simp: agents_ok_def)
    then show "can_place_box w px py aid = Some (count_stack_size w px py < 5)"
      using can_place_box_valid[OF assms(1,3)] by simp
  qed
  from first second show ?thesis by blast
qed

theorem can_place_box_contract_witness:
  "can_place_box example_warehouse 1 1 0 = Some True \<and> can_place_box example_warehouse 1 1 5 = Some False"
proof -
  have v: "is_valid_position example_warehouse 1 1" by (simp add: example_valid_cases)
  have c: "count_stack_size example_warehouse 1 1 = 0"
    by (simp add: count_stack_size_def example_warehouse_def)
  have a: "set (agents example_warehouse) = {example_agent}" by (simp add: example_warehouse_def)
  show ?thesis
    using can_place_box_contract[OF example_grid_ok example_agents_ok v, of 0]
          can_place_box_contract[OF example_grid_ok example_agents_ok v, of 5]
    by (simp add: c a example_agent_def)
qed

section \<open>Dropping a box\<close>

text \<open>
  Claim C10. In a well-formed warehouse \<^verbatim>\<open>drop_box\<close> is all-or-nothing. Called
  while the agent carries nothing, or while \<^verbatim>\<open>can_place_box\<close> fails at the agent's
  coordinate (which it does when the stack there has depth five), it returns False
  and the whole warehouse, agents included, is unchanged. When it returns True the
  carried box id has been appended to the stack at the agent's coordinate and the
  agent carries nothing. A carrying agent on a stack of depth below five does get
  True.
\<close>

theorem drop_box_atomic:
  assumes "grid_ok w" and "agents_ok w" and "boxes_ok w" and "i < length (agents w)"
  shows
    "(\<not> carrying_box (agents w ! i) \<or>
        can_place_box w (agent_x (agents w ! i)) (agent_y (agents w ! i)) (agent_id (agents w ! i))
          = Some False
      \<longrightarrow> drop_box w i = Some (False, w))
     \<and> (count_stack_size w (agent_x (agents w ! i)) (agent_y (agents w ! i)) \<ge> 5 \<longrightarrow>
          can_place_box w (agent_x (agents w ! i)) (agent_y (agents w ! i)) (agent_id (agents w ! i))
            = Some False)
     \<and> (\<forall>w'. drop_box w i = Some (False, w') \<longrightarrow> w' = w)
     \<and> (\<forall>w'. drop_box w i = Some (True, w') \<longrightarrow>
          (\<exists>bid. carrying_box (agents w ! i) \<and> carried_box_id (agents w ! i) = Some bid \<and>
             stack_at w' (agent_x (agents w ! i), agent_y (agents w ! i))
               = stack_at w (agent_x (agents w ! i), agent_y (agents w ! i)) @ [bid]) \<and>
          \<not> carrying_box (agents w' ! i) \<and> carried_box_id (agents w' ! i) = None)
     \<and> (carrying_box (agents w ! i) \<and>
          count_stack_size w (agent_x (agents w ! i)) (agent_y (agents w ! i)) < 5
          \<longrightarrow> (\<exists>w'. drop_box w i = Some (True, w')))"
proof -
  let ?a = "agents w ! i"
  let ?x = "agent_x ?a" and ?y = "agent_y ?a" and ?id = "agent_id ?a"
  have cp: "can_place_box w ?x ?y ?id = Some (count_stack_size w ?x ?y < 5)"
    by (rule can_place_box_self[OF assms(1,2,4)])
  have a_in: "?a \<in> set (agents w)" using assms(4) by simp
  have c1: "\<not> carrying_box ?a \<or> can_place_box w ?x ?y ?id = Some False \<longrightarrow> drop_box w i = Some (False, w)"
    by (auto simp: drop_box_def Let_def)
  have c2: "count_stack_size w ?x ?y \<ge> 5 \<longrightarrow> can_place_box w ?x ?y ?id = Some False"
    using cp by simp
  have c3: "\<forall>w'. drop_box w i = Some (False, w') \<longrightarrow> w' = w"
    by (auto simp: drop_box_def Let_def split: if_splits Option.bind_splits)
  have c45: "carrying_box ?a \<and> count_stack_size w ?x ?y < 5 \<longrightarrow>
       (\<exists>bid w1. carried_box_id ?a = Some bid \<and>
          place_box w ?x ?y (carried_box_id ?a) ?id = Some w1 \<and>
          stack_at w1 (?x, ?y) = stack_at w (?x, ?y) @ [bid] \<and> length (agents w1) = length (agents w))"
  proof
    assume h: "carrying_box ?a \<and> count_stack_size w ?x ?y < 5"
    with assms(3) a_in obtain bid where bid: "carried_box_id ?a = Some bid" "bid \<in> dom (boxes w)"
      unfolding boxes_ok_def by blast
    then obtain b where b: "boxes w bid = Some b" by blast
    from assms(3) a_in obtain d where d: "agent_deliveries w ?id = Some d"
      unfolding boxes_ok_def by blast
    note pb = place_box_self[OF assms(1,2,4) bid(1) b d]
    show "\<exists>bid w1. carried_box_id ?a = Some bid \<and>
          place_box w ?x ?y (carried_box_id ?a) ?id = Some w1 \<and>
          stack_at w1 (?x, ?y) = stack_at w (?x, ?y) @ [bid] \<and> length (agents w1) = length (agents w)"
      apply (rule exI[of _ bid])
      apply (subst pb)
      apply (simp add: bid stack_at_def update_conv')
      done
  qed
  have c4: "\<forall>w'. drop_box w i = Some (True, w') \<longrightarrow>
          (\<exists>bid. carrying_box ?a \<and> carried_box_id ?a = Some bid \<and>
             stack_at w' (?x, ?y) = stack_at w (?x, ?y) @ [bid]) \<and>
          \<not> carrying_box (agents w' ! i) \<and> carried_box_id (agents w' ! i) = None"
  proof (intro allI impI)
    fix w' assume dr: "drop_box w i = Some (True, w')"
    then have h: "carrying_box ?a" "count_stack_size w ?x ?y < 5"
      using cp by (auto simp: drop_box_def Let_def split: if_splits)
    with c45 obtain bid w1 where w1: "carried_box_id ?a = Some bid"
        "place_box w ?x ?y (carried_box_id ?a) ?id = Some w1"
        "stack_at w1 (?x, ?y) = stack_at w (?x, ?y) @ [bid]" "length (agents w1) = length (agents w)"
      by blast
    from dr h cp w1(2)
    have w': "w' = update_self w1 i (\<lambda>a. a\<lparr>carrying_box := False, carried_box_id := None\<rparr>)"
      by (simp add: drop_box_def Let_def)
    show "(\<exists>bid. carrying_box ?a \<and> carried_box_id ?a = Some bid \<and>
             stack_at w' (?x, ?y) = stack_at w (?x, ?y) @ [bid]) \<and>
          \<not> carrying_box (agents w' ! i) \<and> carried_box_id (agents w' ! i) = None"
      using w1 h assms(4) by (simp add: w' update_self_nth)
  qed
  have c5: "carrying_box ?a \<and> count_stack_size w ?x ?y < 5 \<longrightarrow> (\<exists>w'. drop_box w i = Some (True, w'))"
  proof
    assume h: "carrying_box ?a \<and> count_stack_size w ?x ?y < 5"
    with c45 obtain w1 where "place_box w ?x ?y (carried_box_id ?a) ?id = Some w1" by blast
    with h cp show "\<exists>w'. drop_box w i = Some (True, w')"
      by (simp add: drop_box_def Let_def)
  qed
  from c1 c2 c3 c4 c5 show ?thesis by blast
qed

theorem drop_box_atomic_witness:
  "\<exists>w'. drop_box example_warehouse 0 = Some (True, w') \<and>
        stack_at w' (1, 1) = [7] \<and> \<not> carrying_box (agents w' ! 0)"
proof -
  have i: "0 < length (agents example_warehouse)" by (simp add: example_warehouse_def)
  have a: "agents example_warehouse ! 0 = example_agent" by (simp add: example_warehouse_def)
  have c: "count_stack_size example_warehouse 1 1 = 0" "stack_at example_warehouse (1, 1) = []"
    by (simp_all add: count_stack_size_def stack_at_def example_warehouse_def)
  show ?thesis
    using drop_box_atomic[OF example_grid_ok example_agents_ok example_boxes_ok i]
    by (auto simp: a c example_agent_def)
qed

section \<open>Message suppression\<close>

text \<open>
  Claim C7. Whenever \<^verbatim>\<open>sense_environment\<close> returns, the agent's known coordinates
  have grown by a duplicate-free list of new discovery candidates, which contains
  every candidate in sight that was not known before. An agent that is picking up or
  delivering sends nothing: every inbox is unchanged. A searching agent makes one
  \<^verbatim>\<open>BOX_DISCOVERED\<close> broadcast per new coordinate: every other agent within
  communication range receives exactly these messages, one per coordinate, and
  agents out of range receive nothing.
\<close>

theorem sense_environment_message_suppression:
  assumes "sense_environment w i = Some w'" and "i < length (agents w)"
  shows "\<exists>new.
     known_unassigned_boxes (agents w' ! i) = known_unassigned_boxes (agents w ! i) @ new \<and>
     distinct new \<and> set new \<inter> set (known_unassigned_boxes (agents w ! i)) = {} \<and>
     (\<forall>pos \<in> set new. candidate w i pos) \<and>
     (\<forall>pos. in_sight w i pos \<and> candidate w i pos \<and>
        pos \<notin> set (known_unassigned_boxes (agents w ! i)) \<longrightarrow> pos \<in> set new) \<and>
     length (agents w') = length (agents w) \<and>
     (\<forall>j < length (agents w).
        messages (agents w' ! j) =
          messages (agents w ! j) @
            (if state (agents w ! i) = SEARCHING \<and> in_broadcast_range (agents w ! i) (agents w ! j)
             then map (discovery_message (agents w ! i)) new else []))"
proof -
  from sense_environment_discovers[OF assms] obtain new where d: "discovers w i new w'" by blast
  then have s: "sensed w i new w'" by (simp add: discovers_def)
  have k: "known_unassigned_boxes (agents w' ! i) = known_unassigned_boxes (agents w ! i) @ new"
    by (rule discovers_self(5)[OF d assms(2)])
  have comp: "\<forall>pos. in_sight w i pos \<and> candidate w i pos \<and>
        pos \<notin> set (known_unassigned_boxes (agents w ! i)) \<longrightarrow> pos \<in> set new"
  proof (intro allI impI)
    fix pos
    assume h: "in_sight w i pos \<and> candidate w i pos \<and> pos \<notin> set (known_unassigned_boxes (agents w ! i))"
    then obtain d k where dk: "d \<in> set directions" "1 \<le> k" "k \<le> sensor_range (agents w ! i)"
        "pos = ray_cell (agents w ! i) d k"
        "\<forall>k'. 1 \<le> k' \<and> k' < k \<longrightarrow> ray_open w (ray_cell (agents w ! i) d k')"
      unfolding in_sight_def by blast
    from assms(1) have "sense_rays w i directions = Some w'" by (simp add: sense_environment_def)
    from sense_rays_complete[OF this assms(2) dk(1-3,5)] h dk(4)
    have "pos \<in> set (known_unassigned_boxes (agents w' ! i))" by simp
    with k h show "pos \<in> set new" by simp
  qed
  have m: "\<forall>j < length (agents w).
        messages (agents w' ! j) =
          messages (agents w ! j) @
            (if state (agents w ! i) = SEARCHING \<and> in_broadcast_range (agents w ! i) (agents w ! j)
             then map (discovery_message (agents w ! i)) new else [])"
    using sensed_nth[OF s] by simp
  from d have "distinct new" "set new \<inter> set (known_unassigned_boxes (agents w ! i)) = {}"
    "\<forall>pos \<in> set new. candidate w i pos"
    by (simp_all add: discovers_def)
  with k comp m discovers_length[OF d] show ?thesis by blast
qed

theorem sense_environment_message_suppression_witness:
  "(\<exists>w' new. sense_environment (sensing_warehouse SEARCHING) 0 = Some w' \<and> (2, 1) \<in> set new \<and>
       known_unassigned_boxes (agents w' ! 0) = new \<and>
       messages (agents w' ! 1) = map (discovery_message (sensing_agent 0 1 SEARCHING)) new) \<and>
   (\<exists>w' new. sense_environment (sensing_warehouse PICKING_UP) 0 = Some w' \<and> (2, 1) \<in> set new \<and>
       known_unassigned_boxes (agents w' ! 0) = new \<and> messages (agents w' ! 1) = [])"
proof -
  have i: "\<And>st. 0 < length (agents (sensing_warehouse st))" by (simp add: sensing_facts)
  obtain w1 where w1: "sense_environment (sensing_warehouse SEARCHING) 0 = Some w1"
    using sensing_returns[of SEARCHING] by blast
  obtain w2 where w2: "sense_environment (sensing_warehouse PICKING_UP) 0 = Some w2"
    using sensing_returns[of PICKING_UP] by blast
  from sense_environment_message_suppression[OF w1 i] obtain n1 where n1:
    "known_unassigned_boxes (agents w1 ! 0)
       = known_unassigned_boxes (agents (sensing_warehouse SEARCHING) ! 0) @ n1"
    "\<forall>pos. in_sight (sensing_warehouse SEARCHING) 0 pos \<and> candidate (sensing_warehouse SEARCHING) 0 pos \<and>
        pos \<notin> set (known_unassigned_boxes (agents (sensing_warehouse SEARCHING) ! 0)) \<longrightarrow> pos \<in> set n1"
    "\<forall>j < length (agents (sensing_warehouse SEARCHING)).
        messages (agents w1 ! j) =
          messages (agents (sensing_warehouse SEARCHING) ! j) @
            (if state (agents (sensing_warehouse SEARCHING) ! 0) = SEARCHING \<and>
                in_broadcast_range (agents (sensing_warehouse SEARCHING) ! 0) (agents (sensing_warehouse SEARCHING) ! j)
             then map (discovery_message (agents (sensing_warehouse SEARCHING) ! 0)) n1 else [])"
    by blast
  from n1(2) have a1: "(2, 1) \<in> set n1"
    using sensing_candidate[of SEARCHING] sensing_in_sight[of SEARCHING] by (simp add: sensing_facts)
  from n1(1) have a2: "known_unassigned_boxes (agents w1 ! 0) = n1" by (simp add: sensing_facts)
  from n1(3) have "messages (agents w1 ! 1) =
          messages (agents (sensing_warehouse SEARCHING) ! 1) @
            (if state (agents (sensing_warehouse SEARCHING) ! 0) = SEARCHING \<and>
                in_broadcast_range (agents (sensing_warehouse SEARCHING) ! 0) (agents (sensing_warehouse SEARCHING) ! 1)
             then map (discovery_message (agents (sensing_warehouse SEARCHING) ! 0)) n1 else [])"
    by (simp add: sensing_facts(3))
  then have a3: "messages (agents w1 ! 1) = map (discovery_message (sensing_agent 0 1 SEARCHING)) n1"
    by (simp add: sensing_facts)
  from sense_environment_message_suppression[OF w2 i] obtain n2 where n2:
    "known_unassigned_boxes (agents w2 ! 0)
       = known_unassigned_boxes (agents (sensing_warehouse PICKING_UP) ! 0) @ n2"
    "\<forall>pos. in_sight (sensing_warehouse PICKING_UP) 0 pos \<and> candidate (sensing_warehouse PICKING_UP) 0 pos \<and>
        pos \<notin> set (known_unassigned_boxes (agents (sensing_warehouse PICKING_UP) ! 0)) \<longrightarrow> pos \<in> set n2"
    "\<forall>j < length (agents (sensing_warehouse PICKING_UP)).
        messages (agents w2 ! j) =
          messages (agents (sensing_warehouse PICKING_UP) ! j) @
            (if state (agents (sensing_warehouse PICKING_UP) ! 0) = SEARCHING \<and>
                in_broadcast_range (agents (sensing_warehouse PICKING_UP) ! 0) (agents (sensing_warehouse PICKING_UP) ! j)
             then map (discovery_message (agents (sensing_warehouse PICKING_UP) ! 0)) n2 else [])"
    by blast
  from n2(2) have b1: "(2, 1) \<in> set n2"
    using sensing_candidate[of PICKING_UP] sensing_in_sight[of PICKING_UP] by (simp add: sensing_facts)
  from n2(1) have b2: "known_unassigned_boxes (agents w2 ! 0) = n2" by (simp add: sensing_facts)
  from n2(3) have "messages (agents w2 ! 1) =
          messages (agents (sensing_warehouse PICKING_UP) ! 1) @
            (if state (agents (sensing_warehouse PICKING_UP) ! 0) = SEARCHING \<and>
                in_broadcast_range (agents (sensing_warehouse PICKING_UP) ! 0) (agents (sensing_warehouse PICKING_UP) ! 1)
             then map (discovery_message (agents (sensing_warehouse PICKING_UP) ! 0)) n2 else [])"
    by (simp add: sensing_facts(3))
  then have b3: "messages (agents w2 ! 1) = []"
    by (simp add: sensing_facts)
  from w1 a1 a2 a3 w2 b1 b2 b3 show ?thesis by blast
qed

end
